theory Spec2Isabelle
  imports Main "HOL-Library.Char_ord" "HOL-Library.List_Lexorder"
begin

section \<open>The term model (parsing/ast/goal\_ast.py)\<close>

text \<open>
  Terms are the closed algebraic type of the data model: one constructor per Python class.
  A \<open>Var\<close> is identified with its name (its \<open>__eq__\<close> and \<open>__hash__\<close> read the
  name only). A term is a tree: no sub-object is shared between two positions
  (\<open>Fun.build\<close> and \<open>Product.build\<close> hand one type object to every name of a binder;
  here each position has its own copy).

  A pattern keeps \<open>names[0]\<close> (the constructor tag) apart from \<open>names[1:]\<close>: the list of
  names of a pattern starts with the constructor and is never empty.
\<close>

datatype exn = AttributeError | ValueError | KeyError

datatype Pattern = Pattern (pat_ctor: string) (pat_args: "string list") (pat_alias: "string option")

datatype Term =
    Var string
  | Sort string "string option"
  | Fun string Term Term
  | Product string Term Term
  | Let' string Term Term Term
  | Cond Term Term Term Term "string option"
  | Fix string "Binder list" Term Term "string option"
  | Match "MatchSubject list" "CaseClause list" "Term option"
  | Cast Term Term
  | App Term Term
and Binder = Binder "string list" Term
and MatchSubject = MatchSubject Term "string option" "Pattern option"
and CaseClause = CaseClause "Pattern list" Term

text \<open>
  Field order: \<open>Fun var var_type body\<close>, \<open>Product var var_type body\<close>,
  \<open>Let' var var_type var_def body\<close>, \<open>Cond guard ret_ty then_branch else_branch guard_alias\<close>,
  \<open>Fix name params ret_ty body struct\<close>, \<open>Match subjects cases ret_ty\<close>,
  \<open>Cast term term_type\<close>, \<open>App func arg\<close>, \<open>Binder names ty\<close>,
  \<open>MatchSubject term term_alias pattern\<close>, \<open>CaseClause patterns body\<close>.
\<close>

subsection \<open>Literal structural equality: the \<open>__eq__\<close> methods\<close>

text \<open>
  Each \<open>__eq__\<close> first tests the class of \<open>other\<close> and then compares fields.
  \<open>TermAbstraction.__eq__\<close> compares the variable type and the body only.
  \<open>Match.__eq__\<close> compares \<open>set(cases)\<close> with \<open>set(other.cases)\<close>: every clause of
  one side has an equal clause on the other side.
\<close>

fun term_eq :: "Term \<Rightarrow> Term \<Rightarrow> bool"
  and Binder_eq :: "Binder \<Rightarrow> Binder \<Rightarrow> bool"
  and MatchSubject_eq :: "MatchSubject \<Rightarrow> MatchSubject \<Rightarrow> bool"
  and CaseClause_eq :: "CaseClause \<Rightarrow> CaseClause \<Rightarrow> bool"
where
  "term_eq (Var a) other = (case other of Var b \<Rightarrow> a = b | _ \<Rightarrow> False)"
| "term_eq (Sort n a) other = (case other of Sort m b \<Rightarrow> n = m \<and> a = b | _ \<Rightarrow> False)"
| "term_eq (Fun x ty b) other =
     (case other of Fun y ty' b' \<Rightarrow> term_eq ty ty' \<and> term_eq b b' | _ \<Rightarrow> False)"
| "term_eq (Product x ty b) other =
     (case other of Product y ty' b' \<Rightarrow> term_eq ty ty' \<and> term_eq b b' | _ \<Rightarrow> False)"
| "term_eq (Let' x ty d b) other =
     (case other of Let' y ty' d' b' \<Rightarrow> (term_eq ty ty' \<and> term_eq b b') \<and> term_eq d d'
      | _ \<Rightarrow> False)"
| "term_eq (Cond g rt th el ga) other =
     (case other of
        Cond g' rt' th' el' ga' \<Rightarrow>
          ga = ga' \<and> term_eq g g' \<and> term_eq rt rt' \<and> term_eq th th' \<and> term_eq el el'
      | _ \<Rightarrow> False)"
| "term_eq (Fix n ps rt b s) other =
     (case other of
        Fix n' ps' rt' b' s' \<Rightarrow>
          s = s' \<and> n = n' \<and> list_all2 Binder_eq ps ps' \<and> term_eq rt rt' \<and> term_eq b b'
      | _ \<Rightarrow> False)"
| "term_eq (Match ss cs rt) other =
     (case other of
        Match ss' cs' rt' \<Rightarrow>
          list_all2 MatchSubject_eq ss ss'
          \<and> (list_all (\<lambda>c. list_ex (\<lambda>c'. CaseClause_eq c c') cs') cs
             \<and> list_all (\<lambda>c'. list_ex (\<lambda>c. CaseClause_eq c c') cs) cs')
          \<and> (case rt of
               None \<Rightarrow> rt' = None
             | Some r \<Rightarrow> (case rt' of None \<Rightarrow> False | Some r' \<Rightarrow> term_eq r r'))
      | _ \<Rightarrow> False)"
| "term_eq (Cast t ty) other =
     (case other of Cast t' ty' \<Rightarrow> term_eq t t' \<and> term_eq ty ty' | _ \<Rightarrow> False)"
| "term_eq (App f a) other =
     (case other of App f' a' \<Rightarrow> term_eq f f' \<and> term_eq a a' | _ \<Rightarrow> False)"
| "Binder_eq (Binder ns ty) other = (case other of Binder ns' ty' \<Rightarrow> ns = ns' \<and> term_eq ty ty')"
| "MatchSubject_eq (MatchSubject t al p) other =
     (case other of MatchSubject t' al' p' \<Rightarrow> al = al' \<and> p = p' \<and> term_eq t t')"
| "CaseClause_eq (CaseClause ps b) other =
     (case other of CaseClause ps' b' \<Rightarrow> ps = ps' \<and> term_eq b b')"


subsection \<open>Bound variables of patterns and match subjects\<close>

text \<open>
  \<open>get_bound_vars\<close> returns a Python set. The model lists its elements once each; the
  callers either test membership or sort the names, so the order of the list is immaterial.
\<close>

definition Pattern_get_bound_vars :: "Pattern \<Rightarrow> string list" where
  "Pattern_get_bound_vars p =
     remdups (pat_args p @ (case pat_alias p of None \<Rightarrow> [] | Some a \<Rightarrow> [a]))"

definition Pattern_free_vars :: "Pattern \<Rightarrow> string set" where
  "Pattern_free_vars p = (if pat_ctor p \<noteq> ''_'' then {pat_ctor p} else {})"

fun MatchSubject_get_bound_vars :: "MatchSubject \<Rightarrow> string list" where
  "MatchSubject_get_bound_vars (MatchSubject t al p) =
     remdups ((case al of None \<Rightarrow> [] | Some a \<Rightarrow> [a])
              @ (case p of None \<Rightarrow> [] | Some q \<Rightarrow> Pattern_get_bound_vars q))"

fun get_patterns :: "CaseClause \<Rightarrow> Pattern list" where
  "get_patterns (CaseClause ps b) = ps"

fun get_names :: "Binder \<Rightarrow> string list" where
  "get_names (Binder ns ty) = ns"

subsection \<open>Substitution: the \<open>subst\<close> methods\<close>

text \<open>
  \<open>subst\<close> mutates the term in place. The model returns the term as it is after the call,
  or the exception the call raises. The variable and the replacement are given by their
  names; they are objects of their own, not nodes of the term. \<open>seq\<close> runs a step and
  continues with its result unless it raised.
\<close>

abbreviation seq :: "exn + 'a \<Rightarrow> ('a \<Rightarrow> exn + 'b) \<Rightarrow> exn + 'b" where
  "seq m f \<equiv> (case m of Inl e \<Rightarrow> Inl e | Inr x \<Rightarrow> f x)"

fun subst :: "string \<Rightarrow> string \<Rightarrow> Term \<Rightarrow> exn + Term"
  and subst_params :: "string \<Rightarrow> string \<Rightarrow> Binder list \<Rightarrow> exn + Binder list"
  and subst_subjects :: "string \<Rightarrow> string \<Rightarrow> MatchSubject list \<Rightarrow> exn + MatchSubject list"
  and subst_cases :: "string \<Rightarrow> string \<Rightarrow> CaseClause list \<Rightarrow> exn + CaseClause list"
where
  "subst var r (Var n) = Inr (Var (if n = var then r else n))"
| "subst var r (Sort n a) = Inr (Sort n a)"
| "subst var r (Fun x ty b) =
     seq (subst var r ty) (\<lambda>ty'.
       if var \<noteq> x then seq (subst var r b) (\<lambda>b'. Inr (Fun x ty' b'))
       else Inr (Fun x ty' b))"
| "subst var r (Product x ty b) =
     seq (subst var r ty) (\<lambda>ty'.
       if var \<noteq> x then seq (subst var r b) (\<lambda>b'. Inr (Product x ty' b'))
       else Inr (Product x ty' b))"
| "subst var r (Let' x ty d b) =
     seq (subst var r ty) (\<lambda>ty'.
       seq (if var \<noteq> x then subst var r b else Inr b) (\<lambda>b'.
         seq (subst var r d) (\<lambda>d'. Inr (Let' x ty' d' b'))))"
| "subst var r (Cond g rt th el ga) =
     seq (subst var r th) (\<lambda>th'.
       seq (subst var r el) (\<lambda>el'.
         if ga \<noteq> Some var then seq (subst var r rt) (\<lambda>rt'. Inr (Cond g rt' th' el' ga))
         else Inr (Cond g rt th' el' ga)))"
| "subst var r (Fix n ps rt b s) =
     (if n = var then Inr (Fix n ps rt b s)
      else if var \<in> set (concat (map get_names ps)) then Inr (Fix n ps rt b s)
      else seq (subst_params var r ps) (\<lambda>ps'.
             seq (subst var r rt) (\<lambda>rt'.
               seq (subst var r b) (\<lambda>b'. Inr (Fix n ps' rt' b' s)))))"
| "subst var r (Match ss cs rt) =
     seq (subst_subjects var r ss) (\<lambda>ss'.
       seq (if var \<notin> set (concat (map MatchSubject_get_bound_vars ss))
            then (case rt of None \<Rightarrow> Inl AttributeError
                  | Some t \<Rightarrow> seq (subst var r t) (\<lambda>t'. Inr (Some t')))
            else Inr rt) (\<lambda>rt'.
         seq (subst_cases var r cs) (\<lambda>cs'. Inr (Match ss' cs' rt'))))"
| "subst var r (Cast t ty) =
     seq (subst var r t) (\<lambda>t'. seq (subst var r ty) (\<lambda>ty'. Inr (Cast t' ty')))"
| "subst var r (App f a) =
     seq (subst var r f) (\<lambda>f'. seq (subst var r a) (\<lambda>a'. Inr (App f' a')))"
| "subst_params var r [] = Inr []"
| "subst_params var r (Binder ns ty # ps) =
     seq (subst var r ty) (\<lambda>ty'. seq (subst_params var r ps) (\<lambda>ps'. Inr (Binder ns ty' # ps')))"
| "subst_subjects var r [] = Inr []"
| "subst_subjects var r (MatchSubject t al p # ss) =
     seq (subst var r t) (\<lambda>t'.
       seq (subst_subjects var r ss) (\<lambda>ss'. Inr (MatchSubject t' al p # ss')))"
| "subst_cases var r [] = Inr []"
| "subst_cases var r (CaseClause ps b # cs) =
     seq (if var \<notin> set (concat (map Pattern_get_bound_vars ps)) then subst var r b else Inr b)
       (\<lambda>b'. seq (subst_cases var r cs) (\<lambda>cs'. Inr (CaseClause ps b' # cs')))"

text \<open>
  The value the call \<open>t.subst(var, r)\<close> evaluates to: \<open>self\<close>, except that \<open>Fix.subst\<close>
  leaves through a bare \<open>return\<close> (the value \<open>None\<close>) when the variable is the name or a
  parameter of the fixpoint.
\<close>

fun returns_None :: "string \<Rightarrow> Term \<Rightarrow> bool" where
  "returns_None var (Fix n ps rt b s) = (n = var \<or> var \<in> set (concat (map get_names ps)))"
| "returns_None var t = False"

definition subst_ret :: "string \<Rightarrow> string \<Rightarrow> Term \<Rightarrow> exn + Term option" where
  "subst_ret var r t =
     seq (subst var r t) (\<lambda>t'. Inr (if returns_None var t then None else Some t'))"

text \<open>Calling \<open>subst\<close> on an optional term: on \<open>None\<close> the attribute lookup fails.\<close>

fun subst_opt :: "string \<Rightarrow> string \<Rightarrow> Term option \<Rightarrow> exn + Term option" where
  "subst_opt var r None = Inl AttributeError"
| "subst_opt var r (Some t) = seq (subst var r t) (\<lambda>t'. Inr (Some t'))"

subsection \<open>Free variables: the \<open>free_vars\<close> methods\<close>

fun free_vars :: "Term \<Rightarrow> string set"
  and Binder_free_vars :: "Binder \<Rightarrow> string set"
  and MatchSubject_free_vars :: "MatchSubject \<Rightarrow> string set"
  and CaseClause_free_vars :: "CaseClause \<Rightarrow> string set"
where
  "free_vars (Var n) = {n}"
| "free_vars (Sort n a) = {}"
| "free_vars (Fun x ty b) = (free_vars b - {x}) \<union> free_vars ty"
| "free_vars (Product x ty b) = (free_vars b - {x}) \<union> free_vars ty"
| "free_vars (Let' x ty d b) = ((free_vars b - {x}) \<union> free_vars ty) \<union> free_vars d"
| "free_vars (Cond g rt th el ga) =
     ((free_vars rt - set_option ga) \<union> free_vars th) \<union> free_vars el"
| "free_vars (Fix n ps rt b s) =
     (free_vars rt
      \<union> (\<Union> (set (map Binder_free_vars ps)) - set (concat (map get_names ps))))
     \<union> ((free_vars b - {n}) - set (concat (map get_names ps)))"
| "free_vars (Match ss cs rt) =
     (\<Union> (set (map MatchSubject_free_vars ss))
      \<union> (case rt of None \<Rightarrow> {} | Some r \<Rightarrow> free_vars r))
     \<union> \<Union> (set (map CaseClause_free_vars cs))"
| "free_vars (Cast t ty) = free_vars t \<union> free_vars ty"
| "free_vars (App f a) = free_vars f \<union> free_vars a"
| "Binder_free_vars (Binder ns ty) = free_vars ty - set ns"
| "MatchSubject_free_vars (MatchSubject t al p) =
     free_vars t \<union> (case p of None \<Rightarrow> {} | Some q \<Rightarrow> Pattern_free_vars q)"
| "CaseClause_free_vars (CaseClause ps b) =
     free_vars b - set (filter (\<lambda>bv. bv \<noteq> ''_'') (concat (map Pattern_get_bound_vars ps)))"


subsection \<open>Alpha-equivalence: the \<open>alpha_equiv\<close> methods\<close>

text \<open>The placeholder \<open>Var('SynthesizedVar#%d' % i)\<close>.\<close>

fun string_of_nat :: "nat \<Rightarrow> string" where
  "string_of_nat n =
     (if n < 10 then [''0123456789'' ! n]
      else string_of_nat (n div 10) @ [''0123456789'' ! (n mod 10)])"

definition synth :: "nat \<Rightarrow> string" where
  "synth i = ''SynthesizedVar#'' @ string_of_nat i"

text \<open>
  The renaming loop \<open>for i in range(n): this.subst(this_bvs[i], v); other.subst(other_bvs[i], v)\<close>
  on the two deep copies; both lists have length \<open>n\<close>. The values returned by the calls
  are dropped.
\<close>

fun rename_loop ::
  "(string \<Rightarrow> string \<Rightarrow> 'a \<Rightarrow> exn + 'a) \<Rightarrow> nat \<Rightarrow> string list \<Rightarrow> string list \<Rightarrow> 'a \<Rightarrow> 'a
     \<Rightarrow> exn + ('a \<times> 'a)"
where
  "rename_loop sb i (v # vs) (w # ws) a b =
     seq (sb v (synth i) a) (\<lambda>a'. seq (sb w (synth i) b) (\<lambda>b'. rename_loop sb (Suc i) vs ws a' b'))"
| "rename_loop sb i vs ws a b = Inr (a, b)"

text \<open>\<open>==\<close> between two values that are a term or \<open>None\<close>.\<close>

fun opt_eq :: "Term option \<Rightarrow> Term option \<Rightarrow> bool" where
  "opt_eq None None = True"
| "opt_eq (Some a) (Some b) = term_eq a b"
| "opt_eq a b = False"

text \<open>\<open>CaseClause.alpha_equiv\<close>.\<close>

definition CaseClause_bvs :: "Pattern list \<Rightarrow> string list" where
  "CaseClause_bvs ps =
     concat (map (\<lambda>p. filter (\<lambda>bv. bv \<noteq> ''_'') (Pattern_get_bound_vars p)) ps)"

fun CaseClause_alpha_equiv :: "CaseClause \<Rightarrow> CaseClause \<Rightarrow> exn + bool" where
  "CaseClause_alpha_equiv (CaseClause ps b) (CaseClause ps' b') =
     (if length ps \<noteq> length ps' then Inr False
      else if length (CaseClause_bvs ps) \<noteq> length (CaseClause_bvs ps') then Inr False
      else seq (rename_loop subst 0 (sort (CaseClause_bvs ps)) (sort (CaseClause_bvs ps')) b b')
             (\<lambda>(this_body, other_body). Inr (term_eq this_body other_body)))"

text \<open>
  The nested loops of \<open>Match.alpha_equiv\<close>:
  \<open>for c1 in self.cases: for c2 in other.cases: if not c1.alpha_equiv(c2): return False\<close>.
\<close>

fun clause_against_all :: "CaseClause \<Rightarrow> CaseClause list \<Rightarrow> exn + bool" where
  "clause_against_all c1 [] = Inr True"
| "clause_against_all c1 (c2 # cs) =
     seq (CaseClause_alpha_equiv c1 c2) (\<lambda>ok. if ok then clause_against_all c1 cs else Inr False)"

fun all_against_all :: "CaseClause list \<Rightarrow> CaseClause list \<Rightarrow> exn + bool" where
  "all_against_all [] cs' = Inr True"
| "all_against_all (c1 # cs) cs' =
     seq (clause_against_all c1 cs') (\<lambda>ok. if ok then all_against_all cs cs' else Inr False)"

definition Match_bvs :: "MatchSubject list \<Rightarrow> string list" where
  "Match_bvs ss =
     concat (map (\<lambda>s. filter (\<lambda>bv. bv \<noteq> ''_'') (MatchSubject_get_bound_vars s)) ss)"

definition Fix_bvs :: "string \<Rightarrow> Binder list \<Rightarrow> string list" where
  "Fix_bvs n ps = n # concat (map (\<lambda>p. filter (\<lambda>pname. pname \<noteq> ''_'') (get_names p)) ps)"

text \<open>
  The second half of \<open>TermAbstraction.alpha_equiv\<close>, taken when the two bound variables
  differ: substitute the placeholder in a copy of each body and compare the values the
  two \<open>subst\<close> calls return with \<open>==\<close>.
\<close>

definition bodies_after_rename :: "string \<Rightarrow> Term \<Rightarrow> string \<Rightarrow> Term \<Rightarrow> exn + bool" where
  "bodies_after_rename x b y b' =
     seq (subst_ret x (synth 0) b) (\<lambda>this_body.
       seq (subst_ret y (synth 0) b') (\<lambda>other_body. Inr (opt_eq this_body other_body)))"

text \<open>\<open>p and q\<close> on calls that may raise: \<open>q\<close> runs only when \<open>p\<close> returned \<open>True\<close>.\<close>

abbreviation and_then :: "exn + bool \<Rightarrow> exn + bool \<Rightarrow> exn + bool" where
  "and_then p q \<equiv> (case p of Inl e \<Rightarrow> Inl e | Inr ok \<Rightarrow> if ok then q else Inr False)"

fun alpha_equiv :: "Term \<Rightarrow> Term \<Rightarrow> exn + bool" where
  "alpha_equiv (Var a) other = Inr (term_eq (Var a) other)"
| "alpha_equiv (Sort n a) other = Inr (term_eq (Sort n a) other)"
| "alpha_equiv (Fun x ty b) other =
     (case other of
        Fun y ty' b' \<Rightarrow>
          and_then (alpha_equiv ty ty')
            (if x = y then alpha_equiv b b' else bodies_after_rename x b y b')
      | _ \<Rightarrow> Inr False)"
| "alpha_equiv (Product x ty b) other =
     (case other of
        Product y ty' b' \<Rightarrow>
          and_then (alpha_equiv ty ty')
            (if x = y then alpha_equiv b b' else bodies_after_rename x b y b')
      | _ \<Rightarrow> Inr False)"
| "alpha_equiv (Let' x ty d b) other =
     (case other of
        Let' y ty' d' b' \<Rightarrow>
          and_then
            (and_then (alpha_equiv ty ty')
               (if x = y then alpha_equiv b b' else bodies_after_rename x b y b'))
            (alpha_equiv d d')
      | _ \<Rightarrow> Inr False)"
| "alpha_equiv (Cond g rt th el ga) other =
     (case other of
        Cond g' rt' th' el' ga' \<Rightarrow>
          (case ga of
             None \<Rightarrow>
               (if ga' \<noteq> None then Inr False
                else and_then (alpha_equiv g g') (and_then (alpha_equiv th th') (alpha_equiv el el')))
           | Some al \<Rightarrow>
               (case ga' of
                  None \<Rightarrow> Inr False
                | Some al' \<Rightarrow>
                    and_then (bodies_after_rename al rt al' rt')
                      (and_then (alpha_equiv g g')
                         (and_then (alpha_equiv th th') (alpha_equiv el el')))))
      | _ \<Rightarrow> Inr False)"
| "alpha_equiv (Fix n ps rt b s) other =
     (case other of
        Fix n' ps' rt' b' s' \<Rightarrow>
          (if length ps \<noteq> length ps' then Inr False
           else and_then (alpha_equiv rt rt')
             (if length (Fix_bvs n ps) \<noteq> length (Fix_bvs n' ps') then Inr False
              else seq (rename_loop subst 0 (sort (Fix_bvs n ps)) (sort (Fix_bvs n' ps')) b b')
                     (\<lambda>(this_body, other_body). Inr (term_eq this_body other_body))))
      | _ \<Rightarrow> Inr False)"
| "alpha_equiv (Match ss cs rt) other =
     (case other of
        Match ss' cs' rt' \<Rightarrow>
          (if length cs \<noteq> length cs' then Inr False
           else if length ss \<noteq> length ss' then Inr False
           else and_then (all_against_all cs cs')
             (if length (Match_bvs ss) \<noteq> length (Match_bvs ss') then Inr False
              else seq (rename_loop subst_opt 0 (sort (Match_bvs ss)) (sort (Match_bvs ss')) rt rt')
                     (\<lambda>(this_ret_ty, other_ret_ty). Inr (opt_eq this_ret_ty other_ret_ty))))
      | _ \<Rightarrow> Inr False)"
| "alpha_equiv (Cast t ty) other =
     (case other of
        Cast t' ty' \<Rightarrow> and_then (alpha_equiv t t') (alpha_equiv ty ty')
      | _ \<Rightarrow> Inr False)"
| "alpha_equiv (App f a) other =
     (case other of
        App f' a' \<Rightarrow> and_then (alpha_equiv f f') (alpha_equiv a a')
      | _ \<Rightarrow> Inr False)"


section \<open>The variable dependency graph (var\_dag.py)\<close>

text \<open>
  \<open>__adj\<close> is a dictionary from a node to the list of its successors, kept in insertion
  order; \<open>__visited\<close> is a set and \<open>__topo_sort_res\<close> a list. Nodes are \<open>Var\<close>s, that is,
  names.
\<close>

record VarDAG =
  adj :: "(string \<times> string list) list"
  visited :: "string set"
  topo_sort_res :: "string list"

definition VarDAG_init :: VarDAG where
  "VarDAG_init = \<lparr>adj = [], visited = {}, topo_sort_res = []\<rparr>"

definition add_node :: "string \<Rightarrow> VarDAG \<Rightarrow> VarDAG" where
  "add_node node g =
     (if node \<in> set (map fst (adj g)) then g else g\<lparr>adj := adj g @ [(node, [])]\<rparr>)"

definition append_dst :: "string \<Rightarrow> string \<Rightarrow> (string \<times> string list) \<Rightarrow> (string \<times> string list)" where
  "append_dst src dst kv = (if fst kv = src then (fst kv, snd kv @ [dst]) else kv)"

definition add_edge :: "string \<Rightarrow> string \<Rightarrow> VarDAG \<Rightarrow> VarDAG" where
  "add_edge src dst g =
     (let g' = add_node dst (add_node src g) in g'\<lparr>adj := map (append_dst src dst) (adj g')\<rparr>)"

text \<open>
  \<open>__dfs_visit\<close>. The loop over \<open>self.__adj[node]\<close> is \<open>dfs_loop\<close>. Both return the set
  \<open>local_visited\<close> and the graph as the call leaves them, or the exception raised:
  \<open>KeyError\<close> from \<open>self.__adj[node]\<close> or \<open>local_visited.remove(node)\<close>, \<open>ValueError\<close>
  for an edge back into the recursion path. A call that raises leaves no state behind, so
  the lookup of \<open>self.__adj[node]\<close> is written before the two marks.
\<close>

function dfs_visit :: "string \<Rightarrow> string set \<Rightarrow> VarDAG \<Rightarrow> exn + (string set \<times> VarDAG)"
  and dfs_loop :: "string list \<Rightarrow> string set \<Rightarrow> VarDAG \<Rightarrow> exn + (string set \<times> VarDAG)"
where
  "dfs_visit node lv g =
     (case map_of (adj g) node of
        None \<Rightarrow> Inl KeyError
      | Some vs \<Rightarrow>
          seq (dfs_loop vs (insert node lv) (g\<lparr>visited := insert node (visited g)\<rparr>))
            (\<lambda>(lv', g').
               if node \<in> lv'
               then Inr (lv' - {node}, g'\<lparr>topo_sort_res := node # topo_sort_res g'\<rparr>)
               else Inl KeyError))"
| "dfs_loop [] lv g = Inr (lv, g)"
| "dfs_loop (v # vs) lv g =
     (if v \<notin> visited g then seq (dfs_visit v lv g) (\<lambda>(lv', g'). dfs_loop vs lv' g')
      else if v \<in> lv then Inl ValueError
      else dfs_loop vs lv g)"
  by pat_completeness auto


text \<open>
  Termination of the traversal: every call of \<open>dfs_visit\<close> marks a node that was not
  marked, and the graph has finitely many nodes.
\<close>

definition nodes :: "VarDAG \<Rightarrow> string set" where
  "nodes g = set (map fst (adj g)) \<union> \<Union> (set (map (set \<circ> snd) (adj g)))"

lemma dfs_mono_dom:
  "dfs_visit_dfs_loop_dom (Inl (node, lv, g)) \<Longrightarrow>
     dfs_visit node lv g = Inr (lv', g') \<Longrightarrow> adj g' = adj g \<and> visited g \<subseteq> visited g'"
  "dfs_visit_dfs_loop_dom (Inr (vs, lv, g)) \<Longrightarrow>
     dfs_loop vs lv g = Inr (lv', g') \<Longrightarrow> adj g' = adj g \<and> visited g \<subseteq> visited g'"
proof (induction node lv g and vs lv g arbitrary: lv' g' and lv' g' rule: dfs_visit_dfs_loop.pinduct)
  case (1 node lv g)
  from "1.prems" "1.hyps" obtain vs where vs: "map_of (adj g) node = Some vs"
    by (auto simp: dfs_visit.psimps split: option.splits)
  from "1.prems" "1.hyps" vs obtain lv2 g2 where
    r: "dfs_loop vs (insert node lv) (g\<lparr>visited := insert node (visited g)\<rparr>) = Inr (lv2, g2)"
    and g': "g' = g2\<lparr>topo_sort_res := node # topo_sort_res g2\<rparr>"
    by (auto simp: dfs_visit.psimps split: sum.splits if_splits)
  from "1.IH"[OF vs r] g' show ?case by auto
next
  case (2 lv g)
  then show ?case by (simp add: dfs_loop.psimps)
next
  case (3 v vs lv g)
  show ?case
  proof (cases "v \<notin> visited g")
    case True
    with "3.prems" "3.hyps" obtain lv1 g1 where
      r1: "dfs_visit v lv g = Inr (lv1, g1)" and r2: "dfs_loop vs lv1 g1 = Inr (lv', g')"
      by (auto simp: dfs_loop.psimps split: sum.splits)
    from "3.IH"(1)[OF True r1] "3.IH"(2)[OF True r1 refl r2] show ?thesis by auto
  next
    case False
    with "3.prems" "3.hyps" have nl: "v \<notin> lv" and r: "dfs_loop vs lv g = Inr (lv', g')"
      by (auto simp: dfs_loop.psimps split: if_splits)
    from "3.IH"(3)[OF False nl r] show ?thesis .
  qed
qed

lemma finite_nodes: "finite (nodes g)" by (simp add: nodes_def)

lemma map_of_nodes: "map_of (adj g) node = Some vs \<Longrightarrow> set vs \<subseteq> nodes g"
  by (auto simp: nodes_def dest!: map_of_SomeD)

termination dfs_visit
proof (relation "inv_image (less_than <*lex*> less_than)
    (\<lambda>x. case x of
        Inl (node, lv, g) \<Rightarrow> (card (nodes g - visited g - {node}) + 1, 0)
      | Inr (vs, lv, g) \<Rightarrow> (card ((nodes g \<union> set vs) - visited g), length vs + 1))", goal_cases)
  case 1
  show ?case by (intro wf_inv_image wf_lex_prod wf_less_than)
next
  case (2 node lv g vs)
  then have "set vs \<subseteq> nodes g" by (rule map_of_nodes)
  then have "(nodes g \<union> set vs) - insert node (visited g) = nodes g - visited g - {node}" by auto
  then show ?case by (simp add: nodes_def)
next
  case (3 v vs lv g)
  have fin: "finite ((nodes g \<union> set (v # vs)) - visited g)" by (simp add: finite_nodes)
  have "nodes g - visited g - {v} \<subseteq> ((nodes g \<union> set (v # vs)) - visited g) - {v}" by auto
  then have "card (nodes g - visited g - {v}) \<le> card (((nodes g \<union> set (v # vs)) - visited g) - {v})"
    using fin by (intro card_mono) auto
  also have "\<dots> < card ((nodes g \<union> set (v # vs)) - visited g)"
    using 3 fin by (intro card_Diff1_less) auto
  finally show ?case by auto
next
  case (4 v vs lv g b lv1 g1)
  from 4 have r: "dfs_visit v lv g = Inr (lv1, g1)" by simp
  from 4 have d: "dfs_visit_dfs_loop_dom (Inl (v, lv, g))" by simp
  have m: "adj g1 = adj g \<and> visited g \<subseteq> visited g1"
    by (rule dfs_mono_dom(1)[OF d r])
  then have n: "nodes g1 = nodes g" by (simp add: nodes_def)
  from m have sub: "(nodes g1 \<union> set vs) - visited g1 \<subseteq> (nodes g \<union> set (v # vs)) - visited g"
    unfolding n by auto
  have "card ((nodes g1 \<union> set vs) - visited g1) \<le> card ((nodes g \<union> set (v # vs)) - visited g)"
    by (rule card_mono[OF _ sub]) (simp add: finite_nodes)
  then show ?case by (simp add: le_less)
next
  case (5 v vs lv g)
  have sub: "(nodes g \<union> set vs) - visited g \<subseteq> (nodes g \<union> set (v # vs)) - visited g"
    by auto
  have "card ((nodes g \<union> set vs) - visited g) \<le> card ((nodes g \<union> set (v # vs)) - visited g)"
    by (rule card_mono[OF _ sub]) (simp add: finite_nodes)
  then show ?case by (simp add: le_less)
qed

declare dfs_visit.simps [simp del]

text \<open>\<open>get_topological_ordering\<close>: the loop over the keys of \<open>__adj\<close> is \<open>topo_loop\<close>.\<close>

fun topo_loop :: "string list \<Rightarrow> VarDAG \<Rightarrow> exn + VarDAG" where
  "topo_loop [] g = Inr g"
| "topo_loop (node # ns) g =
     (if node \<notin> visited g then seq (dfs_visit node {} g) (\<lambda>(lv, g'). topo_loop ns g')
      else topo_loop ns g)"

definition get_topological_ordering :: "VarDAG \<Rightarrow> exn + string list" where
  "get_topological_ordering g =
     seq (topo_loop (map fst (adj g)) (g\<lparr>topo_sort_res := [], visited := {}\<rparr>))
       (\<lambda>g'. Inr (topo_sort_res g'))"

text \<open>A graph built by a sequence of \<open>add_node\<close> and \<open>add_edge\<close> calls on a new \<open>VarDAG\<close>.\<close>

datatype dag_call = AddNode string | AddEdge string string

fun run_call :: "dag_call \<Rightarrow> VarDAG \<Rightarrow> VarDAG" where
  "run_call (AddNode n) g = add_node n g"
| "run_call (AddEdge s d) g = add_edge s d g"

definition build :: "dag_call list \<Rightarrow> VarDAG" where
  "build calls = fold run_call calls VarDAG_init"

text \<open>The edges \<open>s \<rightarrow> d\<close> of the graph: \<open>d\<close> is in the list \<open>__adj[s]\<close>.\<close>

definition edges :: "VarDAG \<Rightarrow> (string \<times> string) set" where
  "edges g = {(s, d). \<exists>vs. map_of (adj g) s = Some vs \<and> d \<in> set vs}"

text \<open>\<open>a\<close> occurs in the list and \<open>b\<close> occurs after the first occurrence of \<open>a\<close>.\<close>

definition appears_before :: "string list \<Rightarrow> string \<Rightarrow> string \<Rightarrow> bool" where
  "appears_before xs a b = (b \<in> set (drop 1 (dropWhile (\<lambda>x. x \<noteq> a) xs)))"

section \<open>The goal generalizer (util.py)\<close>

text \<open>
  The grammar and the parser generated from it are external to the term model, so
  \<open>generalize\<close> takes what the parser yields as data: each line \<open>name{,name}* : type\<close> of the local context comes
  as a \<open>hyp\<close> with its names (already split at the commas and stripped), the text of its
  type, and the free variables of the parsed type; the goal comes with its text and the
  free variables of its parse. Python iterates over the sets of free variables in an
  order of its own; the model iterates in the order of the given lists.
\<close>

record hyp =
  hyp_names :: "string list"
  hyp_body :: string
  hyp_fvs :: "string list"

text \<open>The dictionary \<open>local_context\<close>: a later line overwrites an earlier one.\<close>

fun build_local_context :: "hyp list \<Rightarrow> (string \<rightharpoonup> string \<times> string list) \<Rightarrow> (string \<rightharpoonup> string \<times> string list)" where
  "build_local_context [] ctx = ctx"
| "build_local_context (d # ds) ctx =
     build_local_context ds
       (fold (\<lambda>defn_var c. c(defn_var \<mapsto> (hyp_body d, remdups (hyp_fvs d)))) (hyp_names d) ctx)"

fun make_dag_edges :: "string \<Rightarrow> string list \<Rightarrow> (string \<rightharpoonup> string \<times> string list) \<Rightarrow> VarDAG \<Rightarrow> VarDAG" where
  "make_dag_edges s [] ctx dag = dag"
| "make_dag_edges s (d # ds) ctx dag =
     make_dag_edges s ds ctx (if d \<in> dom ctx then add_edge s d dag else dag)"

fun make_dag_loop :: "string list \<Rightarrow> (string \<rightharpoonup> string \<times> string list) \<Rightarrow> VarDAG \<Rightarrow> exn + VarDAG" where
  "make_dag_loop [] ctx dag = Inr dag"
| "make_dag_loop (s # ss) ctx dag =
     (case ctx s of
        None \<Rightarrow> Inl KeyError
      | Some (body, fvs) \<Rightarrow> make_dag_loop ss ctx (make_dag_edges s fvs ctx (add_node s dag)))"

definition make_dag :: "string list \<Rightarrow> (string \<rightharpoonup> string \<times> string list) \<Rightarrow> exn + VarDAG" where
  "make_dag locally_defined_fvs ctx = make_dag_loop locally_defined_fvs ctx VarDAG_init"

text \<open>\<open>'forall (%s : %s), (%s)' % (fv, local_context[fv][0], goal)\<close>.\<close>

definition wrap_forall :: "string \<Rightarrow> string \<Rightarrow> string \<Rightarrow> string" where
  "wrap_forall fv ty goal = ''forall ('' @ fv @ '' : '' @ ty @ ''), ('' @ goal @ '')''"

fun wrap_loop :: "string list \<Rightarrow> (string \<rightharpoonup> string \<times> string list) \<Rightarrow> string \<Rightarrow> exn + string" where
  "wrap_loop [] ctx goal = Inr goal"
| "wrap_loop (fv # fvs) ctx goal =
     (case ctx fv of
        None \<Rightarrow> Inl KeyError
      | Some (body, tfvs) \<Rightarrow> wrap_loop fvs ctx (wrap_forall fv body goal))"

definition generalize :: "hyp list \<Rightarrow> string \<Rightarrow> string list \<Rightarrow> exn + string" where
  "generalize local_ctx goal goal_fvs =
     (let ctx = build_local_context local_ctx Map.empty;
          locally_defined_fvs = remdups (filter (\<lambda>fv. fv \<in> dom ctx) goal_fvs)
      in seq (make_dag locally_defined_fvs ctx) (\<lambda>dag.
           seq (get_topological_ordering dag) (\<lambda>rev_top_order.
             wrap_loop (rev rev_top_order) ctx goal)))"

section \<open>The clone search (main.py, util.py, alpha.py)\<close>

text \<open>
  An entry of \<open>goals_list\<close> is the tuple (goal, theorem name, file path, proof, generalized
  goal, local context); \<open>goal_ast_map\<close> maps a generalized goal to its parsed term.
\<close>

record candidate =
  goal :: string
  thm_name :: string
  file_path :: string
  proof_steps :: "string list"
  goal_gen :: string
  local_context :: "string list"

fun is_Product :: "Term \<Rightarrow> bool" where
  "is_Product (Product x ty b) = True"
| "is_Product t = False"

text \<open>\<open>is_prod_body\<close>: \<open>while isinstance(p, Product): p = p.get_body(); if p == t: return True\<close>.\<close>

fun is_prod_body :: "Term \<Rightarrow> Term \<Rightarrow> bool" where
  "is_prod_body (Product x ty b) t = (if term_eq b t then True else is_prod_body b t)"
| "is_prod_body p t = False"

text \<open>The two nested loops of main.py that fill \<open>redundant_goals\<close>, and the final filter.\<close>

fun mark_inner :: "(string \<rightharpoonup> Term) \<Rightarrow> Term \<Rightarrow> candidate list \<Rightarrow> string set \<Rightarrow> exn + string set" where
  "mark_inner m a1 [] red = Inr red"
| "mark_inner m a1 (g # gs) red =
     (case m (goal_gen g) of
        None \<Rightarrow> Inl KeyError
      | Some a2 \<Rightarrow>
          mark_inner m a1 gs
            (if is_Product a1 \<and> is_prod_body a1 a2 then insert (goal_gen g) red else red))"

fun mark_outer :: "(string \<rightharpoonup> Term) \<Rightarrow> candidate list \<Rightarrow> candidate list \<Rightarrow> string set \<Rightarrow> exn + string set" where
  "mark_outer m goals_list [] red = Inr red"
| "mark_outer m goals_list (g # gs) red =
     (case m (goal_gen g) of
        None \<Rightarrow> Inl KeyError
      | Some a1 \<Rightarrow> seq (mark_inner m a1 goals_list red) (\<lambda>red'. mark_outer m goals_list gs red'))"

definition redundant_goals :: "(string \<rightharpoonup> Term) \<Rightarrow> candidate list \<Rightarrow> exn + string set" where
  "redundant_goals m goals_list = mark_outer m goals_list goals_list {}"

definition drop_redundant :: "(string \<rightharpoonup> Term) \<Rightarrow> candidate list \<Rightarrow> exn + candidate list" where
  "drop_redundant m goals_list =
     seq (redundant_goals m goals_list) (\<lambda>red. Inr (filter (\<lambda>g. goal_gen g \<notin> red) goals_list))"

text \<open>
  \<open>find_alpha_equiv_goals\<close>. The report is the list of the index pairs \<open>(i, j)\<close> for which a
  block is written, in the order of writing; an exception ends the scan and leaves what
  was written so far.
\<close>

fun scan_inner ::
  "(string \<rightharpoonup> Term) \<Rightarrow> candidate list \<Rightarrow> nat \<Rightarrow> Term \<Rightarrow> nat list \<Rightarrow> (nat \<times> nat) list \<times> exn option"
where
  "scan_inner m gs i a1 [] = ([], None)"
| "scan_inner m gs i a1 (j # js) =
     (if thm_name (gs ! i) = thm_name (gs ! j) then scan_inner m gs i a1 js
      else case m (goal_gen (gs ! j)) of
             None \<Rightarrow> ([], Some KeyError)
           | Some a2 \<Rightarrow>
               (case alpha_equiv a1 a2 of
                  Inl e \<Rightarrow> ([], Some e)
                | Inr ok \<Rightarrow>
                    (case scan_inner m gs i a1 js of
                       (out, err) \<Rightarrow> ((if ok then [(i, j)] else []) @ out, err))))"

fun scan_outer ::
  "(string \<rightharpoonup> Term) \<Rightarrow> candidate list \<Rightarrow> nat list \<Rightarrow> (nat \<times> nat) list \<times> exn option"
where
  "scan_outer m gs [] = ([], None)"
| "scan_outer m gs (i # is) =
     (case m (goal_gen (gs ! i)) of
        None \<Rightarrow> ([], Some KeyError)
      | Some a1 \<Rightarrow>
          (case scan_inner m gs i a1 [Suc i ..< length gs] of
             (out, Some e) \<Rightarrow> (out, Some e)
           | (out, None) \<Rightarrow>
               (case scan_outer m gs is of (out', err) \<Rightarrow> (out @ out', err))))"

definition find_alpha_equiv_goals ::
  "(string \<rightharpoonup> Term) \<Rightarrow> candidate list \<Rightarrow> (nat \<times> nat) list \<times> exn option"
where
  "find_alpha_equiv_goals m goals_list = scan_outer m goals_list [0 ..< length goals_list]"

text \<open>main.py runs the redundancy filter first and the scan on what the filter keeps.\<close>

definition clone_search ::
  "(string \<rightharpoonup> Term) \<Rightarrow> candidate list \<Rightarrow> exn + (candidate list \<times> (nat \<times> nat) list \<times> exn option)"
where
  "clone_search m goals_list =
     seq (drop_redundant m goals_list) (\<lambda>kept. Inr (kept, find_alpha_equiv_goals m kept))"


section \<open>Properties of the term model\<close>

subsection \<open>Literal equality\<close>

lemma term_eq_refl_all:
  "term_eq t t" "Binder_eq b b" "MatchSubject_eq s s" "CaseClause_eq c c"
proof (induction t and b and s and c)
  case (Match ss cs rt)
  then show ?case
    by (auto simp: list_all2_same list_all_iff list_ex_iff split: option.splits)
qed (auto simp: list_all2_same)

lemmas term_eq_refl = term_eq_refl_all(1)

text \<open>
  \<open>==\<close> is an equivalence relation, and two clauses that are \<open>==\<close> have the same
  patterns, hence the same \<open>__hash__\<close> (which reads the patterns only). So the Python
  sets \<open>set(cases)\<close> are sets of classes of \<open>==\<close>, and comparing two of them is the
  mutual inclusion used in \<open>term_eq\<close>.
\<close>

lemma list_all2_flip:
  "list_all2 P xs ys \<Longrightarrow> (\<And>x y. x \<in> set xs \<Longrightarrow> P x y \<Longrightarrow> Q y x) \<Longrightarrow> list_all2 Q ys xs"
  by (induction rule: list_all2_induct) auto

lemma term_eq_sym_all:
  "term_eq t u \<Longrightarrow> term_eq u t"
  "Binder_eq b b' \<Longrightarrow> Binder_eq b' b"
  "MatchSubject_eq s s' \<Longrightarrow> MatchSubject_eq s' s"
  "CaseClause_eq c c' \<Longrightarrow> CaseClause_eq c' c"
proof (induction t and b and s and c arbitrary: u and b' and s' and c')
  case (Fix n ps rt bd st)
  then show ?case
    by (cases u) (auto intro: list_all2_flip)
next
  case (Match ss cs rt)
  show ?case
  proof (cases u)
    case (Match ss' cs' rt')
    with Match.prems have a: "list_all2 MatchSubject_eq ss ss'"
      and b: "list_all (\<lambda>c. list_ex (\<lambda>c'. CaseClause_eq c c') cs') cs"
      and c: "list_all (\<lambda>c'. list_ex (\<lambda>c. CaseClause_eq c c') cs) cs'"
      and d: "(case rt of None \<Rightarrow> rt' = None | Some r \<Rightarrow> (case rt' of None \<Rightarrow> False | Some r' \<Rightarrow> term_eq r r'))"
      by auto
    from a Match.IH(1) have a': "list_all2 MatchSubject_eq ss' ss" by (rule list_all2_flip)
    from b Match.IH(2) have b': "list_all (\<lambda>c'. list_ex (\<lambda>c. CaseClause_eq c c') cs') cs"
      unfolding list_all_iff list_ex_iff by blast
    from c Match.IH(2) have c': "list_all (\<lambda>c. list_ex (\<lambda>c'. CaseClause_eq c c') cs) cs'"
      unfolding list_all_iff list_ex_iff by blast
    from d Match.IH(3) have d': "(case rt' of None \<Rightarrow> rt = None | Some r' \<Rightarrow> (case rt of None \<Rightarrow> False | Some r \<Rightarrow> term_eq r' r))"
      by (auto split: option.splits)
    from a' b' c' d' Match show ?thesis by simp
  qed (use Match.prems in auto)
qed (rename_tac [1-8] other, case_tac [1-8] other, auto split: Binder.splits MatchSubject.splits CaseClause.splits)

lemma list_all2_chain:
  "list_all2 P xs ys \<Longrightarrow> list_all2 P ys zs
     \<Longrightarrow> (\<And>x y z. x \<in> set xs \<Longrightarrow> P x y \<Longrightarrow> P y z \<Longrightarrow> P x z) \<Longrightarrow> list_all2 P xs zs"
proof (induction arbitrary: zs rule: list_all2_induct)
  case Nil
  then show ?case by simp
next
  case (Cons x xs y ys)
  from Cons.prems(1) obtain z zs' where zs: "zs = z # zs'" "P y z" "list_all2 P ys zs'"
    by (cases zs) auto
  from Cons.hyps(1) zs(2) Cons.prems(2) have "P x z" by simp
  moreover from Cons.IH[OF zs(3)] Cons.prems(2) have "list_all2 P xs zs'" by simp
  ultimately show ?case using zs(1) by simp
qed

lemma term_eq_trans_all:
  "term_eq t u \<Longrightarrow> term_eq u v \<Longrightarrow> term_eq t v"
  "Binder_eq b b' \<Longrightarrow> Binder_eq b' b'' \<Longrightarrow> Binder_eq b b''"
  "MatchSubject_eq s s' \<Longrightarrow> MatchSubject_eq s' s'' \<Longrightarrow> MatchSubject_eq s s''"
  "CaseClause_eq c c' \<Longrightarrow> CaseClause_eq c' c'' \<Longrightarrow> CaseClause_eq c c''"
proof (induction t and b and s and c arbitrary: u v and b' b'' and s' s'' and c' c'')
  case (Fix n ps rt bd st)
  from Fix.prems(1) obtain n' ps' rt' bd' st' where u: "u = Fix n' ps' rt' bd' st'"
    by (cases u) auto
  from Fix.prems(2) u obtain n'' ps'' rt'' bd'' st'' where v: "v = Fix n'' ps'' rt'' bd'' st''"
    by (cases v) auto
  from Fix.prems u v have p: "list_all2 Binder_eq ps ps'" "list_all2 Binder_eq ps' ps''"
    and r: "term_eq rt rt'" "term_eq rt' rt''" and b: "term_eq bd bd'" "term_eq bd' bd''"
    and o: "st = st''" "n = n''" by auto
  from p Fix.IH(1) have "list_all2 Binder_eq ps ps''" by (rule list_all2_chain)
  with Fix.IH(2)[OF r] Fix.IH(3)[OF b] o u v show ?case by simp
next
  case (Match ss cs rt)
  from Match.prems(1) obtain ss' cs' rt' where u: "u = Match ss' cs' rt'"
    by (cases u) auto
  from Match.prems(2) u obtain ss'' cs'' rt'' where v: "v = Match ss'' cs'' rt''"
    by (cases v) auto
  from Match.prems u v have a: "list_all2 MatchSubject_eq ss ss'" "list_all2 MatchSubject_eq ss' ss''"
    and b1: "\<forall>c\<in>set cs. \<exists>c'\<in>set cs'. CaseClause_eq c c'"
    and b2: "\<forall>c'\<in>set cs'. \<exists>c\<in>set cs. CaseClause_eq c c'"
    and c1: "\<forall>c'\<in>set cs'. \<exists>c''\<in>set cs''. CaseClause_eq c' c''"
    and c2: "\<forall>c''\<in>set cs''. \<exists>c'\<in>set cs'. CaseClause_eq c' c''"
    by (auto simp: list_all_iff list_ex_iff)
  from a Match.IH(1) have a': "list_all2 MatchSubject_eq ss ss''" by (rule list_all2_chain)
  from b1 c1 Match.IH(2) have d1: "\<forall>c\<in>set cs. \<exists>c''\<in>set cs''. CaseClause_eq c c''"
    by blast
  from b2 c2 Match.IH(2) have d2: "\<forall>c''\<in>set cs''. \<exists>c\<in>set cs. CaseClause_eq c c''"
    by blast
  from Match.prems u v Match.IH(3)
  have e: "(case rt of None \<Rightarrow> rt'' = None | Some r \<Rightarrow> (case rt'' of None \<Rightarrow> False | Some r'' \<Rightarrow> term_eq r r''))"
    by (auto split: option.splits)
  from a' d1 d2 e u v show ?case by (simp add: list_all_iff list_ex_iff)
next
  case (Var x)
  from Var.prems(1) obtain x1 where u: "u = Var x1"
    by (cases u) auto
  from Var.prems(2) u obtain x2 where v: "v = Var x2"
    by (cases v) auto
  from Var.prems u v show ?case by auto
next
  case (Sort n a)
  from Sort.prems(1) obtain n1 a1 where u: "u = Sort n1 a1"
    by (cases u) auto
  from Sort.prems(2) u obtain n2 a2 where v: "v = Sort n2 a2"
    by (cases v) auto
  from Sort.prems u v show ?case by auto
next
  case (Fun x ty bd)
  from Fun.prems(1) obtain x1 ty1 bd1 where u: "u = Fun x1 ty1 bd1"
    by (cases u) auto
  from Fun.prems(2) u obtain x2 ty2 bd2 where v: "v = Fun x2 ty2 bd2"
    by (cases v) auto
  from Fun.prems u v Fun.IH show ?case by auto
next
  case (Product x ty bd)
  from Product.prems(1) obtain x1 ty1 bd1 where u: "u = Product x1 ty1 bd1"
    by (cases u) auto
  from Product.prems(2) u obtain x2 ty2 bd2 where v: "v = Product x2 ty2 bd2"
    by (cases v) auto
  from Product.prems u v Product.IH show ?case by auto
next
  case (Let' x ty d bd)
  from Let'.prems(1) obtain x1 ty1 d1 bd1 where u: "u = Let' x1 ty1 d1 bd1"
    by (cases u) auto
  from Let'.prems(2) u obtain x2 ty2 d2 bd2 where v: "v = Let' x2 ty2 d2 bd2"
    by (cases v) auto
  from Let'.prems u v Let'.IH show ?case by auto
next
  case (Cond g rt th el ga)
  from Cond.prems(1) obtain g1 rt1 th1 el1 ga1 where u: "u = Cond g1 rt1 th1 el1 ga1"
    by (cases u) auto
  from Cond.prems(2) u obtain g2 rt2 th2 el2 ga2 where v: "v = Cond g2 rt2 th2 el2 ga2"
    by (cases v) auto
  from Cond.prems u v Cond.IH show ?case by auto
next
  case (Cast tm ty)
  from Cast.prems(1) obtain tm1 ty1 where u: "u = Cast tm1 ty1"
    by (cases u) auto
  from Cast.prems(2) u obtain tm2 ty2 where v: "v = Cast tm2 ty2"
    by (cases v) auto
  from Cast.prems u v Cast.IH show ?case by auto
next
  case (App f a)
  from App.prems(1) obtain f1 a1 where u: "u = App f1 a1"
    by (cases u) auto
  from App.prems(2) u obtain f2 a2 where v: "v = App f2 a2"
    by (cases v) auto
  from App.prems u v App.IH show ?case by auto
next
  case (Binder ns ty)
  then show ?case by (cases b'; cases b'') auto
next
  case (MatchSubject tm al p)
  then show ?case by (cases s'; cases s'') auto
next
  case (CaseClause ps bd)
  then show ?case by (cases c'; cases c'') auto
qed

lemmas term_eq_sym = term_eq_sym_all(1)

lemmas term_eq_trans = term_eq_trans_all(1)

lemma CaseClause_eq_patterns: "CaseClause_eq c c' \<Longrightarrow> get_patterns c = get_patterns c'"
  by (cases c; cases c') simp

text \<open>
  Claim C10. \<open>==\<close> on \<open>Fun\<close>, \<open>Product\<close> and \<open>Let\<close> does not look at the name of the bound
  variable: two abstractions with the same variable type and body (and, for \<open>Let\<close>, the
  same definition) are equal whatever their bound names are, because equality compares
  the variable types, the bodies and the definitions only.
\<close>

theorem eq_ignores_bound_name:
  "term_eq (Fun x ty b) (Fun y ty b)
   \<and> term_eq (Product x ty b) (Product y ty b)
   \<and> term_eq (Let' x ty d b) (Let' y ty d b)
   \<and> term_eq (Fun x ty b) (Fun y ty' b') = (term_eq ty ty' \<and> term_eq b b')
   \<and> term_eq (Product x ty b) (Product y ty' b') = (term_eq ty ty' \<and> term_eq b b')
   \<and> term_eq (Let' x ty d b) (Let' y ty' d' b')
       = (term_eq ty ty' \<and> term_eq b b' \<and> term_eq d d')"
  by (simp add: term_eq_refl)

theorem eq_ignores_bound_name_witness:
  "term_eq (Fun ''x'' (Sort ''Prop'' None) (Var ''z''))
           (Fun ''y'' (Sort ''Prop'' None) (Var ''z''))"
  using eq_ignores_bound_name [of "''x''" "Sort ''Prop'' None" "Var ''z''" "''y''"] by simp

subsection \<open>Alpha-equivalence\<close>

text \<open>
  Claim C1. \<open>alpha_equiv\<close> is not reflexive on the code. \<open>Match.alpha_equiv\<close> compares
  every clause of one side with every clause of the other side, so the match
  \<open>match n with O => a | S m => b end\<close> is not alpha-equivalent to itself; and on a match
  without return type whose subject binds an alias, \<open>match n as y with end\<close>, it calls
  \<open>subst\<close> on \<open>None\<close> and raises.
\<close>

theorem alpha_equiv_Match_not_reflexive:
  "alpha_equiv
     (Match [MatchSubject (Var ''n'') None None]
        [CaseClause [Pattern ''O'' [] None] (Var ''a''),
         CaseClause [Pattern ''S'' [''m''] None] (Var ''b'')] None)
     (Match [MatchSubject (Var ''n'') None None]
        [CaseClause [Pattern ''O'' [] None] (Var ''a''),
         CaseClause [Pattern ''S'' [''m''] None] (Var ''b'')] None)
   = Inr False
   \<and> alpha_equiv (Match [MatchSubject (Var ''n'') (Some ''y'') None] [] None)
                 (Match [MatchSubject (Var ''n'') (Some ''y'') None] [] None)
       = Inl AttributeError"
  by (simp add: CaseClause_bvs_def Pattern_get_bound_vars_def Match_bvs_def)

text \<open>
  Claim C2, as stated, fails: the two functions below differ in the name of the top-level
  bound variable and in the name of the nested binder (\<open>a\<close> against \<open>c\<close>), and
  \<open>alpha_equiv\<close> returns \<open>True\<close>.
\<close>

theorem alpha_equiv_nested_names_counterexample:
  "alpha_equiv
     (Fun ''x'' (Sort ''Prop'' None) (Fun ''a'' (Sort ''Prop'' None) (Var ''x'')))
     (Fun ''y'' (Sort ''Prop'' None) (Fun ''c'' (Sort ''Prop'' None) (Var ''y'')))
   = Inr True \<and> ''a'' \<noteq> ''c''"
  by (simp add: bodies_after_rename_def subst_ret_def)

text \<open>
  Claim C2, amended. For two \<open>Fun\<close>, two \<open>Product\<close> or two \<open>Let\<close> terms whose variable types
  are alpha-equivalent: when the two top-level bound variables have the same name the
  bodies are compared by \<open>alpha_equiv\<close>; when the names differ, only the top-level bound
  variable is replaced by the placeholder \<open>SynthesizedVar#0\<close> in both bodies and the results
  are compared by literal equality (\<open>Let\<close> then also requires alpha-equivalent definitions).
  Literal equality does not read the names of nested binders: for a nested \<open>Fun\<close> the
  result is decided by the substituted variable types and bodies alone.
\<close>

theorem abstraction_alpha_equiv:
  assumes "alpha_equiv ty ty' = Inr True"
  shows "alpha_equiv (Fun x ty b) (Fun x ty' b') = alpha_equiv b b'
    \<and> alpha_equiv (Product x ty b) (Product x ty' b') = alpha_equiv b b'
    \<and> alpha_equiv (Let' x ty d b) (Let' x ty' d' b')
        = and_then (alpha_equiv b b') (alpha_equiv d d')
    \<and> (x \<noteq> y \<and> subst_ret x (synth 0) b = Inr this_body
          \<and> subst_ret y (synth 0) b' = Inr other_body
       \<longrightarrow> alpha_equiv (Fun x ty b) (Fun y ty' b') = Inr (opt_eq this_body other_body)
         \<and> alpha_equiv (Product x ty b) (Product y ty' b') = Inr (opt_eq this_body other_body)
         \<and> alpha_equiv (Let' x ty d b) (Let' y ty' d' b')
             = (if opt_eq this_body other_body then alpha_equiv d d' else Inr False))
    \<and> (x \<noteq> y \<and> a \<noteq> x \<and> c \<noteq> y
          \<and> subst x (synth 0) u = Inr u1 \<and> subst y (synth 0) u' = Inr u1'
          \<and> subst x (synth 0) e = Inr e1 \<and> subst y (synth 0) e' = Inr e1'
       \<longrightarrow> alpha_equiv (Fun x ty (Fun a u e)) (Fun y ty' (Fun c u' e'))
             = Inr (term_eq u1 u1' \<and> term_eq e1 e1'))"
  using assms by (simp add: bodies_after_rename_def subst_ret_def)


theorem abstraction_alpha_equiv_witness:
  "alpha_equiv (Sort ''Prop'' None) (Sort ''Prop'' None) = Inr True
   \<and> alpha_equiv (Fun ''x'' (Sort ''Prop'' None) (Var ''x''))
                 (Fun ''y'' (Sort ''Prop'' None) (Var ''y'')) = Inr True
   \<and> alpha_equiv (Fun ''x'' (Sort ''Prop'' None) (Fun ''a'' (Sort ''Set'' None) (Var ''a'')))
                 (Fun ''y'' (Sort ''Prop'' None) (Fun ''c'' (Sort ''Set'' None) (Var ''c'')))
       = Inr False"
proof -
  have h: "alpha_equiv (Sort ''Prop'' None) (Sort ''Prop'' None) = Inr True" by simp
  have s1: "subst_ret ''x'' (synth 0) (Var ''x'') = Inr (Some (Var (synth 0)))"
    by (simp add: subst_ret_def)
  have s2: "subst_ret ''y'' (synth 0) (Var ''y'') = Inr (Some (Var (synth 0)))"
    by (simp add: subst_ret_def)
  note inst = abstraction_alpha_equiv [OF h, where x = "''x''" and y = "''y''"
      and b = "Var ''x''" and b' = "Var ''y''"
      and this_body = "Some (Var (synth 0))" and other_body = "Some (Var (synth 0))"
      and a = "''a''" and c = "''c''"
      and u = "Sort ''Set'' None" and u' = "Sort ''Set'' None"
      and ?u1.0 = "Sort ''Set'' None" and u1' = "Sort ''Set'' None"
      and e = "Var ''a''" and e' = "Var ''c''" and ?e1.0 = "Var ''a''" and e1' = "Var ''c''"
      and d = "Var ''d''" and d' = "Var ''d''"]
  show ?thesis using h s1 s2 inst by simp
qed

subsection \<open>Free variables\<close>

text \<open>
  Claim C3, as stated, fails: the type of the bound variable lies outside the scope of the
  binder, so a variable that occurs in its own declared type stays free.
\<close>

theorem free_vars_Fun_counterexample:
  "''x'' \<in> free_vars (Fun ''x'' (Var ''x'') (Var ''y''))"
  by simp

text \<open>
  Claim C3, amended. \<open>free_vars\<close> of a node is built from the free variables of its
  immediate subterms, and a variable bound by the node is removed only from the subterm
  in its scope. For \<open>Fun\<close>, \<open>Product\<close> and \<open>Let\<close> the bound variable is removed from the
  body, not from the variable type (nor from the definition of a \<open>Let\<close>); hence
  \<open>x\<close> is free in \<open>Fun(x, ty, body)\<close> exactly when it is free in \<open>ty\<close>. \<open>Cast\<close> and \<open>App\<close>
  take the union of their two parts. For a \<open>Cond\<close> the free variables of both branches and
  of the return type without the guard alias are included, and nothing outside the four
  subterms is. For a \<open>Fix\<close> the name and the parameter names are removed from the body; for
  a \<open>CaseClause\<close> the names bound by its patterns, wildcards apart, are removed from the body.
\<close>

theorem free_vars_scoped:
  "free_vars (Fun x ty b) = (free_vars b - {x}) \<union> free_vars ty
   \<and> free_vars (Product x ty b) = (free_vars b - {x}) \<union> free_vars ty
   \<and> free_vars (Let' x ty d b) = (free_vars b - {x}) \<union> free_vars ty \<union> free_vars d
   \<and> free_vars (Cast t ty) = free_vars t \<union> free_vars ty
   \<and> free_vars (App f a) = free_vars f \<union> free_vars a
   \<and> (x \<in> free_vars (Fun x ty b)) = (x \<in> free_vars ty)
   \<and> (free_vars rt - set_option ga) \<union> free_vars th \<union> free_vars el
        \<subseteq> free_vars (Cond g rt th el ga)
   \<and> free_vars (Cond g rt th el ga)
        \<subseteq> free_vars g \<union> (free_vars rt - set_option ga) \<union> free_vars th \<union> free_vars el
   \<and> (free_vars b - {n}) - set (concat (map get_names ps)) \<subseteq> free_vars (Fix n ps rt b s)
   \<and> free_vars (Fix n ps rt b s)
        \<subseteq> free_vars rt \<union> \<Union> (set (map Binder_free_vars ps))
           \<union> ((free_vars b - {n}) - set (concat (map get_names ps)))
   \<and> CaseClause_free_vars (CaseClause pats b)
        = free_vars b - (set (concat (map Pattern_get_bound_vars pats)) - {''_''})"
  by auto

theorem free_vars_scoped_witness:
  "free_vars (Fun ''x'' (Var ''T'') (App (Var ''x'') (Var ''y''))) = {''y'', ''T''}
   \<and> ''x'' \<notin> free_vars (Fun ''x'' (Var ''T'') (App (Var ''x'') (Var ''y'')))"
  using free_vars_scoped [where x = "''x''" and ty = "Var ''T''"
      and b = "App (Var ''x'') (Var ''y'')"]
  by auto

subsection \<open>Substitution\<close>

text \<open>
  Claim C4. \<open>Cond.subst\<close> substitutes in the two branches and in the return type and never
  in the guard: a free occurrence of the variable in the guard is left as it is.
\<close>

theorem subst_skips_Cond_guard:
  "subst ''v'' ''r'' (Cond (Var ''v'') (Sort ''Prop'' None) (Var ''v'') (Var ''w'') None)
   = Inr (Cond (Var ''v'') (Sort ''Prop'' None) (Var ''r'') (Var ''w'') None)"
  by simp

text \<open>
  Claim C5. \<open>Match.subst\<close> calls \<open>subst\<close> on the return type without testing that there is
  one: on a match without return type, substituting a variable that the subjects do not
  bind raises \<open>AttributeError\<close>.
\<close>

theorem subst_raises_on_Match_without_ret_ty:
  "subst ''a'' ''b'' (Match [MatchSubject (Var ''n'') None None] [] None) = Inl AttributeError"
  by simp

section \<open>Properties of the clone search\<close>

subsection \<open>The redundancy filter\<close>

text \<open>The number of \<open>Product\<close> layers at the top of a term.\<close>

fun prod_depth :: "Term \<Rightarrow> nat" where
  "prod_depth (Product x ty b) = Suc (prod_depth b)"
| "prod_depth t = 0"

lemma term_eq_Product_right: "term_eq t (Product y ty' b') \<Longrightarrow> \<exists>x ty b. t = Product x ty b \<and> term_eq b b'"
  by (cases t) auto

lemma term_eq_Product_left: "term_eq (Product x ty b) u \<Longrightarrow> \<exists>y ty' b'. u = Product y ty' b' \<and> term_eq b b'"
  by (cases u) auto

lemma prod_depth_0: "prod_depth t = 0 \<Longrightarrow> \<not> is_Product t"
  by (cases t) auto

lemma not_Product_depth: "\<not> is_Product t \<Longrightarrow> prod_depth t = 0"
  by (cases t) auto

lemma prod_depth_Suc: "prod_depth t = Suc n \<Longrightarrow> \<exists>x ty b. t = Product x ty b \<and> prod_depth b = n"
  by (cases t) auto

lemma term_eq_prod_depth: "term_eq t u \<Longrightarrow> prod_depth t = prod_depth u"
proof (induction "prod_depth t" arbitrary: t u)
  case 0
  then have "\<not> is_Product t" by (simp add: prod_depth_0)
  with "0.prems" have "\<not> is_Product u"
    by (cases u) (auto dest: term_eq_Product_right)
  then show ?case using 0 by (simp add: not_Product_depth)
next
  case (Suc n)
  from prod_depth_Suc[OF Suc.hyps(2)[symmetric]] obtain x ty b
    where t: "t = Product x ty b" and n: "prod_depth b = n" by blast
  from term_eq_Product_left Suc.prems t obtain y ty' b'
    where u: "u = Product y ty' b'" and e: "term_eq b b'" by blast
  from Suc.hyps(1)[OF n[symmetric] e] t u show ?case by simp
qed

lemma is_prod_body_depth: "is_prod_body p t \<Longrightarrow> prod_depth t < prod_depth p"
proof (induction p t rule: is_prod_body.induct)
  case (1 x ty b t)
  then show ?case by (auto dest: term_eq_prod_depth split: if_splits)
qed simp_all

lemma is_prod_body_not_eq: "is_prod_body p t \<Longrightarrow> \<not> term_eq p t"
  using is_prod_body_depth term_eq_prod_depth by fastforce

text \<open>What the two marking loops compute when every generalized goal has its term in the map.\<close>

lemma mark_inner_result:
  "\<forall>g\<in>set gs. m (goal_gen g) \<noteq> None \<Longrightarrow>
   mark_inner m a1 gs red =
     Inr (red \<union> {goal_gen g | g. g \<in> set gs \<and> is_Product a1 \<and> is_prod_body a1 (the (m (goal_gen g)))})"
proof (induction gs arbitrary: red)
  case Nil
  then show ?case by simp
next
  case (Cons g gs)
  then obtain a2 where a2: "m (goal_gen g) = Some a2" by auto
  from Cons.prems have rest: "\<forall>g\<in>set gs. m (goal_gen g) \<noteq> None" by simp
  have "mark_inner m a1 (g # gs) red
      = mark_inner m a1 gs (if is_Product a1 \<and> is_prod_body a1 a2 then insert (goal_gen g) red else red)"
    using a2 by simp
  also have "\<dots> = Inr ((if is_Product a1 \<and> is_prod_body a1 a2 then insert (goal_gen g) red else red)
       \<union> {goal_gen g | g. g \<in> set gs \<and> is_Product a1 \<and> is_prod_body a1 (the (m (goal_gen g)))})"
    by (rule Cons.IH[OF rest])
  also have "(if is_Product a1 \<and> is_prod_body a1 a2 then insert (goal_gen g) red else red)
       \<union> {goal_gen g | g. g \<in> set gs \<and> is_Product a1 \<and> is_prod_body a1 (the (m (goal_gen g)))}
     = red \<union> {goal_gen g' | g'. g' \<in> set (g # gs) \<and> is_Product a1 \<and> is_prod_body a1 (the (m (goal_gen g')))}"
    using a2 by auto
  finally show ?case .
qed

lemma mark_outer_result:
  "\<forall>g\<in>set all. m (goal_gen g) \<noteq> None \<Longrightarrow> set gs \<subseteq> set all \<Longrightarrow>
   mark_outer m all gs red =
     Inr (red \<union> {goal_gen b | a b. a \<in> set gs \<and> b \<in> set all
            \<and> is_Product (the (m (goal_gen a)))
            \<and> is_prod_body (the (m (goal_gen a))) (the (m (goal_gen b)))})"
proof (induction gs arbitrary: red)
  case Nil
  then show ?case by simp
next
  case (Cons g gs)
  then obtain a1 where a1: "m (goal_gen g) = Some a1" by auto
  from Cons.prems have sub: "set gs \<subseteq> set all" by simp
  let ?r1 = "red \<union> {goal_gen b | b. b \<in> set all \<and> is_Product a1 \<and> is_prod_body a1 (the (m (goal_gen b)))}"
  have "mark_outer m all (g # gs) red = mark_outer m all gs ?r1"
    using a1 mark_inner_result[OF Cons.prems(1), of a1 red] by simp
  also have "\<dots> = Inr (?r1 \<union> {goal_gen b | a b. a \<in> set gs \<and> b \<in> set all
            \<and> is_Product (the (m (goal_gen a)))
            \<and> is_prod_body (the (m (goal_gen a))) (the (m (goal_gen b)))})"
    by (rule Cons.IH[OF Cons.prems(1) sub])
  also have "?r1 \<union> {goal_gen b | a b. a \<in> set gs \<and> b \<in> set all
            \<and> is_Product (the (m (goal_gen a)))
            \<and> is_prod_body (the (m (goal_gen a))) (the (m (goal_gen b)))}
      = red \<union> {goal_gen b | a b. a \<in> set (g # gs) \<and> b \<in> set all
            \<and> is_Product (the (m (goal_gen a)))
            \<and> is_prod_body (the (m (goal_gen a))) (the (m (goal_gen b)))}"
    (is "?L = ?R")
  proof
    have g: "the (m (goal_gen g)) = a1" using a1 by simp
    show "?L \<subseteq> ?R"
    proof
      fix x assume "x \<in> ?L"
      then consider "x \<in> red"
        | b where "x = goal_gen b" "b \<in> set all" "is_Product a1" "is_prod_body a1 (the (m (goal_gen b)))"
        | a b where "x = goal_gen b" "a \<in> set gs" "b \<in> set all" "is_Product (the (m (goal_gen a)))"
            "is_prod_body (the (m (goal_gen a))) (the (m (goal_gen b)))"
        by blast
      then show "x \<in> ?R"
      proof cases
        case 1
        then show ?thesis by simp
      next
        case 2
        with g have "\<exists>a b. x = goal_gen b \<and> a \<in> set (g # gs) \<and> b \<in> set all
            \<and> is_Product (the (m (goal_gen a)))
            \<and> is_prod_body (the (m (goal_gen a))) (the (m (goal_gen b)))"
          by (intro exI[of _ g] exI[of _ b]) simp
        then show ?thesis by blast
      next
        case 3
        then have "\<exists>a b. x = goal_gen b \<and> a \<in> set (g # gs) \<and> b \<in> set all
            \<and> is_Product (the (m (goal_gen a)))
            \<and> is_prod_body (the (m (goal_gen a))) (the (m (goal_gen b)))"
          by (intro exI[of _ a] exI[of _ b]) simp
        then show ?thesis by blast
      qed
    qed
    show "?R \<subseteq> ?L"
    proof
      fix x assume "x \<in> ?R"
      then consider "x \<in> red"
        | a b where "x = goal_gen b" "a \<in> set (g # gs)" "b \<in> set all" "is_Product (the (m (goal_gen a)))"
            "is_prod_body (the (m (goal_gen a))) (the (m (goal_gen b)))"
        by blast
      then show "x \<in> ?L"
      proof cases
        case 1
        then show ?thesis by simp
      next
        case 2
        show ?thesis
        proof (cases "a = g")
          case True
          with 2 g have "x = goal_gen b \<and> b \<in> set all \<and> is_Product a1 \<and> is_prod_body a1 (the (m (goal_gen b)))"
            by simp
          then show ?thesis by blast
        next
          case False
          with 2 have "a \<in> set gs" by simp
          with 2 show ?thesis by blast
        qed
      qed
    qed
  qed
  finally show ?case .
qed

text \<open>
  The filter in terms of \<open>is_prod_body\<close>: when every generalized goal of the list has its
  term in the map (main.py fills the map and the list in the same loop), a candidate is
  removed exactly when \<open>is_prod_body\<close> holds of the term of some candidate of the list
  and its own term.
\<close>

lemma drop_redundant_is_prod_body:
  assumes keys: "\<forall>g\<in>set goals_list. m (goal_gen g) \<noteq> None"
  shows "\<exists>kept. drop_redundant m goals_list = Inr kept
     \<and> clone_search m goals_list = Inr (kept, find_alpha_equiv_goals m kept)
     \<and> set kept \<subseteq> set goals_list
     \<and> (\<forall>b\<in>set goals_list.
          (b \<notin> set kept) =
          (\<exists>a\<in>set goals_list. \<exists>ta tb.
              m (goal_gen a) = Some ta \<and> m (goal_gen b) = Some tb
              \<and> \<not> term_eq ta tb \<and> is_Product ta \<and> is_prod_body ta tb))"
proof -
  define red where "red = {goal_gen b | a b. a \<in> set goals_list \<and> b \<in> set goals_list
            \<and> is_Product (the (m (goal_gen a)))
            \<and> is_prod_body (the (m (goal_gen a))) (the (m (goal_gen b)))}"
  define kept where "kept = filter (\<lambda>g. goal_gen g \<notin> red) goals_list"
  have "redundant_goals m goals_list = Inr ({} \<union> red)"
    unfolding redundant_goals_def red_def by (rule mark_outer_result[OF keys subset_refl])
  then have r: "redundant_goals m goals_list = Inr red" by simp
  have d: "drop_redundant m goals_list = Inr kept"
    by (simp add: drop_redundant_def r kept_def)
  have c: "clone_search m goals_list = Inr (kept, find_alpha_equiv_goals m kept)"
    by (simp add: clone_search_def d)
  have s: "set kept \<subseteq> set goals_list" by (simp add: kept_def)
  have iff: "(b \<notin> set kept) =
          (\<exists>a\<in>set goals_list. \<exists>ta tb.
              m (goal_gen a) = Some ta \<and> m (goal_gen b) = Some tb
              \<and> \<not> term_eq ta tb \<and> is_Product ta \<and> is_prod_body ta tb)"
    (is "?lhs = ?rhs") if b: "b \<in> set goals_list" for b
  proof
    assume ?lhs
    with b have "goal_gen b \<in> red" by (simp add: kept_def)
    then obtain a and b' :: candidate where ab: "a \<in> set goals_list" "goal_gen b = goal_gen b'"
      "is_Product (the (m (goal_gen a)))"
      "is_prod_body (the (m (goal_gen a))) (the (m (goal_gen b')))"
      unfolding red_def mem_Collect_eq by blast
    from keys ab(1) obtain ta where ta: "m (goal_gen a) = Some ta" by auto
    from keys b obtain tb where tb: "m (goal_gen b) = Some tb" by auto
    from ab ta tb have p: "is_Product ta" and q: "is_prod_body ta tb" by simp_all
    from q have "\<not> term_eq ta tb" by (rule is_prod_body_not_eq)
    with ta tb p q ab(1) show ?rhs by blast
  next
    assume ?rhs
    then obtain a ta tb where a: "a \<in> set goals_list" and ta: "m (goal_gen a) = Some ta"
      and tb: "m (goal_gen b) = Some tb" and p: "is_Product ta" and q: "is_prod_body ta tb"
      by blast
    have "\<exists>a' (b'::candidate). goal_gen b = goal_gen b' \<and> a' \<in> set goals_list \<and> b' \<in> set goals_list
            \<and> is_Product (the (m (goal_gen a')))
            \<and> is_prod_body (the (m (goal_gen a'))) (the (m (goal_gen b')))"
      using a b ta tb p q by (intro exI[of _ a] exI[of _ b]) simp
    then have "goal_gen b \<in> red" unfolding red_def mem_Collect_eq .
    then show ?lhs by (simp add: kept_def)
  qed
  from d c s iff show ?thesis by blast
qed

text \<open>
  The words of the claim, stated on their own: \<open>nth_body k t\<close> is the term reached from
  \<open>t\<close> by taking the body of a \<open>Product\<close> \<open>k\<close> times, if \<open>t\<close> has that many nested
  \<open>Product\<close> layers. \<open>is_prod_body p t\<close> holds exactly when, for some \<open>k \<ge> 1\<close>, the
  \<open>k\<close>-th body of \<open>p\<close> exists and is \<open>==\<close> to \<open>t\<close>.
\<close>

fun nth_body :: "nat \<Rightarrow> Term \<Rightarrow> Term option" where
  "nth_body 0 t = Some t"
| "nth_body (Suc k) (Product x ty b) = nth_body k b"
| "nth_body (Suc k) t = None"

lemma is_prod_body_iff_nth_body:
  "is_prod_body p t = (\<exists>k b. nth_body (Suc k) p = Some b \<and> term_eq b t)"
proof (induction p arbitrary: t rule: prod_depth.induct)
  case (1 x ty b)
  show ?case
  proof
    assume "is_prod_body (Product x ty b) t"
    then consider "term_eq b t" | "is_prod_body b t" by (auto split: if_splits)
    then show "\<exists>k b'. nth_body (Suc k) (Product x ty b) = Some b' \<and> term_eq b' t"
    proof cases
      case 1
      then have "nth_body (Suc 0) (Product x ty b) = Some b \<and> term_eq b t" by simp
      then show ?thesis by blast
    next
      case 2
      with "1.IH" obtain k b' where "nth_body (Suc k) b = Some b'" "term_eq b' t" by blast
      then have "nth_body (Suc (Suc k)) (Product x ty b) = Some b' \<and> term_eq b' t" by simp
      then show ?thesis by blast
    qed
  next
    assume "\<exists>k b'. nth_body (Suc k) (Product x ty b) = Some b' \<and> term_eq b' t"
    then obtain k b' where k: "nth_body k b = Some b'" and e: "term_eq b' t" by auto
    show "is_prod_body (Product x ty b) t"
    proof (cases k)
      case 0
      with k e show ?thesis by simp
    next
      case (Suc k')
      with k e have "\<exists>k b'. nth_body (Suc k) b = Some b' \<and> term_eq b' t" by blast
      with "1.IH" have "is_prod_body b t" by simp
      then show ?thesis by simp
    qed
  qed
qed simp_all

text \<open>
  Claim C8. When every generalized goal of the list has its term in the map (main.py fills
  the map and the list in the same loop), the filter removes a candidate \<open>b\<close> if and only
  if some candidate \<open>a\<close> of the list has a term that is a \<open>Product\<close>, is not \<open>==\<close> to
  the term of \<open>b\<close>, and for some \<open>k \<ge> 1\<close> the term reached by unwrapping \<open>k\<close> nested
  \<open>Product\<close> layers of it is \<open>==\<close> to the term of \<open>b\<close>. The scan for clones runs on the
  candidates kept.
\<close>

theorem redundancy_filter:
  assumes keys: "\<forall>g\<in>set goals_list. m (goal_gen g) \<noteq> None"
  shows "\<exists>kept. drop_redundant m goals_list = Inr kept
     \<and> clone_search m goals_list = Inr (kept, find_alpha_equiv_goals m kept)
     \<and> set kept \<subseteq> set goals_list
     \<and> (\<forall>b\<in>set goals_list.
          (b \<notin> set kept) =
          (\<exists>a\<in>set goals_list. \<exists>ta tb.
              m (goal_gen a) = Some ta \<and> m (goal_gen b) = Some tb
              \<and> \<not> term_eq ta tb \<and> is_Product ta
              \<and> (\<exists>k body. nth_body (Suc k) ta = Some body \<and> term_eq body tb)))"
  using drop_redundant_is_prod_body[OF keys] unfolding is_prod_body_iff_nth_body .

theorem redundancy_filter_witness:
  "drop_redundant
     [''forall (x : T), (forall (y : U), (P))'' \<mapsto>
        Product ''x'' (Var ''T'') (Product ''y'' (Var ''U'') (Var ''P'')),
      ''P'' \<mapsto> Var ''P'',
      ''Q'' \<mapsto> Var ''Q'']
     [\<lparr>goal = ''P'', thm_name = ''t1'', file_path = ''f.v'', proof_steps = [''auto''],
        goal_gen = ''forall (x : T), (forall (y : U), (P))'', local_context = [''x : T'', ''y : U'']\<rparr>,
      \<lparr>goal = ''P'', thm_name = ''t2'', file_path = ''f.v'', proof_steps = [''auto''],
        goal_gen = ''P'', local_context = []\<rparr>,
      \<lparr>goal = ''Q'', thm_name = ''t3'', file_path = ''f.v'', proof_steps = [''auto''],
        goal_gen = ''Q'', local_context = []\<rparr>]
   = Inr [\<lparr>goal = ''P'', thm_name = ''t1'', file_path = ''f.v'', proof_steps = [''auto''],
        goal_gen = ''forall (x : T), (forall (y : U), (P))'', local_context = [''x : T'', ''y : U'']\<rparr>,
      \<lparr>goal = ''Q'', thm_name = ''t3'', file_path = ''f.v'', proof_steps = [''auto''],
        goal_gen = ''Q'', local_context = []\<rparr>]"
proof -
  let ?m = "[''forall (x : T), (forall (y : U), (P))'' \<mapsto>
        Product ''x'' (Var ''T'') (Product ''y'' (Var ''U'') (Var ''P'')),
      ''P'' \<mapsto> Var ''P'',
      ''Q'' \<mapsto> Var ''Q'']"
  let ?a = "\<lparr>goal = ''P'', thm_name = ''t1'', file_path = ''f.v'', proof_steps = [''auto''],
        goal_gen = ''forall (x : T), (forall (y : U), (P))'', local_context = [''x : T'', ''y : U'']\<rparr>"
  let ?b = "\<lparr>goal = ''P'', thm_name = ''t2'', file_path = ''f.v'', proof_steps = [''auto''],
        goal_gen = ''P'', local_context = []\<rparr>"
  let ?c = "\<lparr>goal = ''Q'', thm_name = ''t3'', file_path = ''f.v'', proof_steps = [''auto''],
        goal_gen = ''Q'', local_context = []\<rparr>"
  have keys: "\<forall>g\<in>set [?a, ?b, ?c]. ?m (goal_gen g) \<noteq> None" by simp
  from redundancy_filter[OF keys] obtain kept where
    k: "drop_redundant ?m [?a, ?b, ?c] = Inr kept" by blast
  moreover have "drop_redundant ?m [?a, ?b, ?c] = Inr [?a, ?c]"
    by (simp add: drop_redundant_def redundant_goals_def)
  ultimately show ?thesis by simp
qed

subsection \<open>The pairwise scan\<close>

lemma scan_inner_sound:
  "(p, q) \<in> set (fst (scan_inner m gs i a1 js)) \<Longrightarrow>
     p = i \<and> q \<in> set js \<and> thm_name (gs ! i) \<noteq> thm_name (gs ! q)
     \<and> (\<exists>a2. m (goal_gen (gs ! q)) = Some a2 \<and> alpha_equiv a1 a2 = Inr True)"
proof (induction js)
  case Nil
  then show ?case by simp
next
  case (Cons j js)
  show ?case
  proof (cases "thm_name (gs ! i) = thm_name (gs ! j)")
    case True
    with Cons show ?thesis by auto
  next
    case False
    show ?thesis
    proof (cases "m (goal_gen (gs ! j))")
      case None
      with False Cons.prems show ?thesis by simp
    next
      case (Some a2)
      show ?thesis
      proof (cases "alpha_equiv a1 a2")
        case (Inl e)
        with False Some Cons.prems show ?thesis by simp
      next
        case (Inr ok)
        obtain out err where r: "scan_inner m gs i a1 js = (out, err)" by (cases "scan_inner m gs i a1 js")
        with False Some Inr Cons.prems
        have "(p, q) \<in> set (if ok then [(i, j)] else []) \<or> (p, q) \<in> set out" by simp
        then show ?thesis
        proof
          assume "(p, q) \<in> set (if ok then [(i, j)] else [])"
          then have "ok" "p = i" "q = j" by (auto split: if_splits)
          with False Some Inr show ?thesis by simp
        next
          assume "(p, q) \<in> set out"
          with r Cons.IH show ?thesis by simp
        qed
      qed
    qed
  qed
qed

lemma scan_inner_complete:
  "snd (scan_inner m gs i a1 js) = None \<Longrightarrow> q \<in> set js \<Longrightarrow>
   thm_name (gs ! i) \<noteq> thm_name (gs ! q) \<Longrightarrow> m (goal_gen (gs ! q)) = Some a2 \<Longrightarrow>
   alpha_equiv a1 a2 = Inr True \<Longrightarrow> (i, q) \<in> set (fst (scan_inner m gs i a1 js))"
proof (induction js)
  case Nil
  then show ?case by simp
next
  case (Cons j js)
  show ?case
  proof (cases "thm_name (gs ! i) = thm_name (gs ! j)")
    case True
    with Cons show ?thesis by auto
  next
    case False
    show ?thesis
    proof (cases "m (goal_gen (gs ! j))")
      case None
      with False Cons.prems show ?thesis by simp
    next
      case (Some b2)
      show ?thesis
      proof (cases "alpha_equiv a1 b2")
        case (Inl e)
        with False Some Cons.prems show ?thesis by simp
      next
        case (Inr ok)
        obtain out err where r: "scan_inner m gs i a1 js = (out, err)" by (cases "scan_inner m gs i a1 js")
        from False Some Inr r Cons.prems(1) have e: "err = None" by simp
        from False Some Inr r have f: "fst (scan_inner m gs i a1 (j # js)) = (if ok then [(i, j)] else []) @ out"
          by simp
        show ?thesis
        proof (cases "q = j")
          case True
          with Cons.prems Some Inr have "ok" by simp
          with f True show ?thesis by simp
        next
          case False
          with Cons.prems have "q \<in> set js" by simp
          from Cons.IH[OF _ this Cons.prems(3,4,5)] r e have "(i, q) \<in> set out" by simp
          with f show ?thesis by simp
        qed
      qed
    qed
  qed
qed

lemma scan_outer_sound:
  "(p, q) \<in> set (fst (scan_outer m gs is)) \<Longrightarrow>
     p \<in> set is \<and> q \<in> set [Suc p ..< length gs] \<and> thm_name (gs ! p) \<noteq> thm_name (gs ! q)
     \<and> (\<exists>a1 a2. m (goal_gen (gs ! p)) = Some a1 \<and> m (goal_gen (gs ! q)) = Some a2
           \<and> alpha_equiv a1 a2 = Inr True)"
proof (induction "is")
  case Nil
  then show ?case by simp
next
  case (Cons i "is")
  show ?case
  proof (cases "m (goal_gen (gs ! i))")
    case None
    with Cons.prems show ?thesis by simp
  next
    case (Some a1)
    obtain out err where r: "scan_inner m gs i a1 [Suc i ..< length gs] = (out, err)"
      by (cases "scan_inner m gs i a1 [Suc i ..< length gs]")
    obtain out' err' where r': "scan_outer m gs is = (out', err')" by (cases "scan_outer m gs is")
    from Some r r' Cons.prems have "(p, q) \<in> set out \<or> (p, q) \<in> set out'"
      by (cases err) auto
    then show ?thesis
    proof
      assume "(p, q) \<in> set out"
      with r have "(p, q) \<in> set (fst (scan_inner m gs i a1 [Suc i ..< length gs]))" by simp
      from scan_inner_sound[OF this] Some show ?thesis by auto
    next
      assume "(p, q) \<in> set out'"
      with r' Cons.IH show ?thesis by simp
    qed
  qed
qed

lemma scan_outer_complete:
  "snd (scan_outer m gs is) = None \<Longrightarrow> p \<in> set is \<Longrightarrow> q \<in> set [Suc p ..< length gs] \<Longrightarrow>
   thm_name (gs ! p) \<noteq> thm_name (gs ! q) \<Longrightarrow>
   m (goal_gen (gs ! p)) = Some a1 \<Longrightarrow> m (goal_gen (gs ! q)) = Some a2 \<Longrightarrow>
   alpha_equiv a1 a2 = Inr True \<Longrightarrow> (p, q) \<in> set (fst (scan_outer m gs is))"
proof (induction "is")
  case Nil
  then show ?case by simp
next
  case (Cons i "is")
  show ?case
  proof (cases "m (goal_gen (gs ! i))")
    case None
    with Cons.prems show ?thesis by simp
  next
    case (Some b1)
    obtain out err where r: "scan_inner m gs i b1 [Suc i ..< length gs] = (out, err)"
      by (cases "scan_inner m gs i b1 [Suc i ..< length gs]")
    obtain out' err' where r': "scan_outer m gs is = (out', err')" by (cases "scan_outer m gs is")
    from Some r r' Cons.prems(1) have e: "err = None" and e': "err' = None"
      by (cases err; simp)+
    from Some r r' e have f: "fst (scan_outer m gs (i # is)) = out @ out'" by simp
    show ?thesis
    proof (cases "p = i")
      case True
      with Cons.prems Some have b1: "b1 = a1" by simp
      have "snd (scan_inner m gs i b1 [Suc i ..< length gs]) = None" using r e by simp
      from scan_inner_complete[OF this, of q a2] Cons.prems True b1 r
      have "(i, q) \<in> set out" by simp
      with f True show ?thesis by simp
    next
      case False
      with Cons.prems have "p \<in> set is" by simp
      from Cons.IH[OF _ this Cons.prems(3,4,5,6,7)] r' e' have "(p, q) \<in> set out'" by simp
      with f show ?thesis by simp
    qed
  qed
qed

text \<open>
  What holds of every run of the scan: each pair \<open>(i, j)\<close> written to the report has
  \<open>i < j\<close>, two different theorem names and alpha-equivalent cached terms
  (\<open>a1.alpha_equiv(a2)\<close> returned \<open>True\<close>), so no pair with the same theorem name on both
  sides is ever written; and a scan that runs to its end without an exception writes
  every such pair.
\<close>

lemma scan_report:
  "(\<forall>(i, j) \<in> set (fst (find_alpha_equiv_goals m goals_list)).
      i < j \<and> j < length goals_list
      \<and> thm_name (goals_list ! i) \<noteq> thm_name (goals_list ! j)
      \<and> (\<exists>a1 a2. m (goal_gen (goals_list ! i)) = Some a1 \<and> m (goal_gen (goals_list ! j)) = Some a2
            \<and> alpha_equiv a1 a2 = Inr True))
   \<and> (snd (find_alpha_equiv_goals m goals_list) = None \<longrightarrow>
        (\<forall>i j a1 a2. i < j \<and> j < length goals_list
            \<and> thm_name (goals_list ! i) \<noteq> thm_name (goals_list ! j)
            \<and> m (goal_gen (goals_list ! i)) = Some a1 \<and> m (goal_gen (goals_list ! j)) = Some a2
            \<and> alpha_equiv a1 a2 = Inr True
          \<longrightarrow> (i, j) \<in> set (fst (find_alpha_equiv_goals m goals_list))))"
proof (intro conjI impI allI)
  show "\<forall>(i, j) \<in> set (fst (find_alpha_equiv_goals m goals_list)).
      i < j \<and> j < length goals_list
      \<and> thm_name (goals_list ! i) \<noteq> thm_name (goals_list ! j)
      \<and> (\<exists>a1 a2. m (goal_gen (goals_list ! i)) = Some a1 \<and> m (goal_gen (goals_list ! j)) = Some a2
            \<and> alpha_equiv a1 a2 = Inr True)"
  proof (clarify)
    fix i j assume "(i, j) \<in> set (fst (find_alpha_equiv_goals m goals_list))"
    then have "(i, j) \<in> set (fst (scan_outer m goals_list [0 ..< length goals_list]))"
      by (simp add: find_alpha_equiv_goals_def)
    from scan_outer_sound[OF this]
    show "i < j \<and> j < length goals_list
      \<and> thm_name (goals_list ! i) \<noteq> thm_name (goals_list ! j)
      \<and> (\<exists>a1 a2. m (goal_gen (goals_list ! i)) = Some a1 \<and> m (goal_gen (goals_list ! j)) = Some a2
            \<and> alpha_equiv a1 a2 = Inr True)" by auto
  qed
next
  fix i j a1 a2
  assume n: "snd (find_alpha_equiv_goals m goals_list) = None"
    and h: "i < j \<and> j < length goals_list
            \<and> thm_name (goals_list ! i) \<noteq> thm_name (goals_list ! j)
            \<and> m (goal_gen (goals_list ! i)) = Some a1 \<and> m (goal_gen (goals_list ! j)) = Some a2
            \<and> alpha_equiv a1 a2 = Inr True"
  from n have n': "snd (scan_outer m goals_list [0 ..< length goals_list]) = None"
    by (simp add: find_alpha_equiv_goals_def)
  from h have i: "i \<in> set [0 ..< length goals_list]" and j: "j \<in> set [Suc i ..< length goals_list]"
    by auto
  from scan_outer_complete[OF n' i j] h
  show "(i, j) \<in> set (fst (find_alpha_equiv_goals m goals_list))"
    by (simp add: find_alpha_equiv_goals_def)
qed

lemma scan_report_example:
  "(0, 1) \<in> set (fst (find_alpha_equiv_goals
       [''forall (n : nat), (n = n)'' \<mapsto> Product ''n'' (Var ''nat'') (App (App (Var ''eq'') (Var ''n'')) (Var ''n'')),
        ''forall (k : nat), (k = k)'' \<mapsto> Product ''k'' (Var ''nat'') (App (App (Var ''eq'') (Var ''k'')) (Var ''k''))]
       [\<lparr>goal = ''n = n'', thm_name = ''thm_a'', file_path = ''a.v'', proof_steps = [''reflexivity.''],
          goal_gen = ''forall (n : nat), (n = n)'', local_context = [''n : nat'']\<rparr>,
        \<lparr>goal = ''k = k'', thm_name = ''thm_b'', file_path = ''b.v'', proof_steps = [''reflexivity.''],
          goal_gen = ''forall (k : nat), (k = k)'', local_context = [''k : nat'']\<rparr>,
        \<lparr>goal = ''n = n'', thm_name = ''thm_a'', file_path = ''a.v'', proof_steps = [''auto.''],
          goal_gen = ''forall (n : nat), (n = n)'', local_context = [''n : nat'']\<rparr>]))
   \<and> (0, 2) \<notin> set (fst (find_alpha_equiv_goals
       [''forall (n : nat), (n = n)'' \<mapsto> Product ''n'' (Var ''nat'') (App (App (Var ''eq'') (Var ''n'')) (Var ''n'')),
        ''forall (k : nat), (k = k)'' \<mapsto> Product ''k'' (Var ''nat'') (App (App (Var ''eq'') (Var ''k'')) (Var ''k''))]
       [\<lparr>goal = ''n = n'', thm_name = ''thm_a'', file_path = ''a.v'', proof_steps = [''reflexivity.''],
          goal_gen = ''forall (n : nat), (n = n)'', local_context = [''n : nat'']\<rparr>,
        \<lparr>goal = ''k = k'', thm_name = ''thm_b'', file_path = ''b.v'', proof_steps = [''reflexivity.''],
          goal_gen = ''forall (k : nat), (k = k)'', local_context = [''k : nat'']\<rparr>,
        \<lparr>goal = ''n = n'', thm_name = ''thm_a'', file_path = ''a.v'', proof_steps = [''auto.''],
          goal_gen = ''forall (n : nat), (n = n)'', local_context = [''n : nat'']\<rparr>]))"
  (is "(0, 1) \<in> set (fst (find_alpha_equiv_goals ?m ?gs)) \<and> _")
proof -
  have e: "find_alpha_equiv_goals ?m ?gs = ([(0, 1), (1, 2)], None)"
    by (simp add: find_alpha_equiv_goals_def upt_conv_Cons bodies_after_rename_def subst_ret_def)
  have a: "alpha_equiv (Product ''n'' (Var ''nat'') (App (App (Var ''eq'') (Var ''n'')) (Var ''n'')))
       (Product ''k'' (Var ''nat'') (App (App (Var ''eq'') (Var ''k'')) (Var ''k''))) = Inr True"
    by (simp add: bodies_after_rename_def subst_ret_def)
  from e have n: "snd (find_alpha_equiv_goals ?m ?gs) = None" by simp
  note t = scan_report[of ?m ?gs]
  from t n a have "(0, 1) \<in> set (fst (find_alpha_equiv_goals ?m ?gs))"
    by (elim conjE impE[of "snd _ = None"]) (simp, force)
  moreover from t have "(0, 2) \<notin> set (fst (find_alpha_equiv_goals ?m ?gs))"
    by (elim conjE) force
  ultimately show ?thesis by simp
qed

text \<open>
  Claim C9. The scan has no handler for an exception of \<open>alpha_equiv\<close>, and \<open>alpha_equiv\<close>
  raises on two products with different bound names over a match without return type
  (\<open>Match.subst\<close> calls \<open>subst\<close> on \<open>None\<close>). On the four candidates below the first
  comparison raises and ends the scan with an empty report, although candidates 2 and 3
  come from different theorems and have alpha-equivalent terms: that pair is not written.
\<close>

theorem scan_aborts_on_exception:
  "find_alpha_equiv_goals
     [''forall (x : T), (match x with | c => a end)'' \<mapsto>
        Product ''x'' (Var ''T'')
          (Match [MatchSubject (Var ''x'') None None]
             [CaseClause [Pattern ''c'' [] None] (Var ''a'')] None),
      ''forall (y : T), (match y with | c => a end)'' \<mapsto>
        Product ''y'' (Var ''T'')
          (Match [MatchSubject (Var ''y'') None None]
             [CaseClause [Pattern ''c'' [] None] (Var ''a'')] None),
      ''forall (n : nat), (n = n)'' \<mapsto>
        Product ''n'' (Var ''nat'') (App (App (Var ''eq'') (Var ''n'')) (Var ''n'')),
      ''forall (k : nat), (k = k)'' \<mapsto>
        Product ''k'' (Var ''nat'') (App (App (Var ''eq'') (Var ''k'')) (Var ''k''))]
     [\<lparr>goal = ''match x with | c => a end'', thm_name = ''thm_a'', file_path = ''a.v'',
        proof_steps = [''destruct x.''],
        goal_gen = ''forall (x : T), (match x with | c => a end)'',
        local_context = [''x : T'']\<rparr>,
      \<lparr>goal = ''match y with | c => a end'', thm_name = ''thm_b'', file_path = ''b.v'',
        proof_steps = [''destruct y.''],
        goal_gen = ''forall (y : T), (match y with | c => a end)'',
        local_context = [''y : T'']\<rparr>,
      \<lparr>goal = ''n = n'', thm_name = ''thm_c'', file_path = ''c.v'',
        proof_steps = [''reflexivity.''],
        goal_gen = ''forall (n : nat), (n = n)'', local_context = [''n : nat'']\<rparr>,
      \<lparr>goal = ''k = k'', thm_name = ''thm_d'', file_path = ''d.v'',
        proof_steps = [''reflexivity.''],
        goal_gen = ''forall (k : nat), (k = k)'', local_context = [''k : nat'']\<rparr>]
   = ([], Some AttributeError)
   \<and> alpha_equiv (Product ''n'' (Var ''nat'') (App (App (Var ''eq'') (Var ''n'')) (Var ''n'')))
         (Product ''k'' (Var ''nat'') (App (App (Var ''eq'') (Var ''k'')) (Var ''k'')))
       = Inr True
   \<and> ''thm_c'' \<noteq> ''thm_d''"
  by (simp add: find_alpha_equiv_goals_def upt_conv_Cons bodies_after_rename_def subst_ret_def)

section \<open>Properties of the variable dependency graph\<close>

text \<open>
  Every successor in an adjacency list is a key of \<open>__adj\<close>: \<open>add_edge\<close> inserts both
  end points before it appends, so \<open>self.__adj[v]\<close> never fails during the traversal.
\<close>

definition closed :: "VarDAG \<Rightarrow> bool" where
  "closed g = (\<forall>kv\<in>set (adj g). set (snd kv) \<subseteq> set (map fst (adj g)))"

text \<open>
  The invariant of the traversal, for the set \<open>lv\<close> of the nodes on the recursion path
  (\<open>local_visited\<close>): the marked nodes are the finished ones (those in the result list)
  and those on the path; the result list has no duplicates; and every finished node comes
  in the result list before all its successors.
\<close>

definition dfs_inv :: "string set \<Rightarrow> VarDAG \<Rightarrow> bool" where
  "dfs_inv lv g =
     (visited g = set (topo_sort_res g) \<union> lv
      \<and> set (topo_sort_res g) \<inter> lv = {}
      \<and> distinct (topo_sort_res g)
      \<and> visited g \<subseteq> set (map fst (adj g))
      \<and> (\<forall>u\<in>set (topo_sort_res g). \<forall>w. (u, w) \<in> edges g \<longrightarrow> appears_before (topo_sort_res g) u w))"

lemma appears_before_hd [simp]: "appears_before (a # xs) a b = (b \<in> set xs)"
  by (simp add: appears_before_def)

lemma appears_before_tl [simp]: "c \<noteq> a \<Longrightarrow> appears_before (c # xs) a b = appears_before xs a b"
  by (simp add: appears_before_def)

lemma edges_adj: "adj g' = adj g \<Longrightarrow> edges g' = edges g"
  by (simp add: edges_def)

lemma closed_adj: "adj g' = adj g \<Longrightarrow> closed g' = closed g"
  by (simp add: closed_def)

lemma edge_target_key:
  assumes "closed g" "(s, d) \<in> edges g"
  shows "map_of (adj g) d \<noteq> None"
proof -
  from assms(2) obtain vs where vs: "map_of (adj g) s = Some vs" "d \<in> set vs"
    by (auto simp: edges_def)
  then have "(s, vs) \<in> set (adj g)" by (simp add: map_of_SomeD)
  with assms(1) vs(2) have "d \<in> set (map fst (adj g))" by (force simp: closed_def)
  then show ?thesis by (simp add: map_of_eq_None_iff)
qed

lemma dfs_inv_enter:
  assumes inv: "dfs_inv lv g" and nv: "node \<notin> visited g" and key: "map_of (adj g) node \<noteq> None"
  shows "dfs_inv (insert node lv) (g\<lparr>visited := insert node (visited g)\<rparr>)"
proof -
  from key have "node \<in> set (map fst (adj g))" by (simp add: map_of_eq_None_iff)
  moreover from inv nv have "node \<notin> set (topo_sort_res g)" by (auto simp: dfs_inv_def)
  ultimately show ?thesis using inv by (auto simp: dfs_inv_def edges_def)
qed

lemma dfs_inv_leave:
  assumes inv: "dfs_inv (insert node lv) g2" and nl: "node \<notin> lv"
    and vs: "map_of (adj g2) node = Some vs" and fin: "set vs \<subseteq> set (topo_sort_res g2)"
  shows "dfs_inv lv (g2\<lparr>topo_sort_res := node # topo_sort_res g2\<rparr>)"
proof -
  from inv have n: "node \<notin> set (topo_sort_res g2)" by (auto simp: dfs_inv_def)
  have e: "edges (g2\<lparr>topo_sort_res := node # topo_sort_res g2\<rparr>) = edges g2" by (simp add: edges_def)
  have b: "appears_before (node # topo_sort_res g2) u w"
    if u: "u \<in> set (node # topo_sort_res g2)" and uw: "(u, w) \<in> edges g2" for u w
  proof (cases "u = node")
    case True
    with uw vs have "w \<in> set vs" by (auto simp: edges_def)
    with fin True show ?thesis by auto
  next
    case False
    with u have "u \<in> set (topo_sort_res g2)" by simp
    with inv uw have "appears_before (topo_sort_res g2) u w" by (simp add: dfs_inv_def)
    with False show ?thesis by simp
  qed
  from inv nl n have "visited g2 = set (node # topo_sort_res g2) \<union> lv"
    "set (node # topo_sort_res g2) \<inter> lv = {}" "distinct (node # topo_sort_res g2)"
    "visited g2 \<subseteq> set (map fst (adj g2))"
    by (auto simp: dfs_inv_def)
  with b show ?thesis unfolding dfs_inv_def e by simp
qed

lemma dfs_inv_res_mono:
  assumes "dfs_inv lv g" "dfs_inv lv g'" "visited g \<subseteq> visited g'"
  shows "set (topo_sort_res g) \<subseteq> set (topo_sort_res g')"
  using assms by (auto simp: dfs_inv_def)

lemma dfs_correct:
  "closed g \<Longrightarrow> acyclic (edges g) \<Longrightarrow> node \<notin> visited g \<Longrightarrow> map_of (adj g) node \<noteq> None
     \<Longrightarrow> dfs_inv lv g \<Longrightarrow> (\<forall>l\<in>lv. (l, node) \<in> (edges g)\<^sup>+)
     \<Longrightarrow> \<exists>g'. dfs_visit node lv g = Inr (lv, g') \<and> adj g' = adj g \<and> dfs_inv lv g'
            \<and> visited g \<subseteq> visited g' \<and> node \<in> set (topo_sort_res g')"
  "closed g \<Longrightarrow> acyclic (edges g) \<Longrightarrow> dfs_inv lv g \<Longrightarrow> cur \<in> lv
     \<Longrightarrow> (\<forall>l\<in>lv. (l, cur) \<in> (edges g)\<^sup>*) \<Longrightarrow> (\<forall>v\<in>set vs. (cur, v) \<in> edges g)
     \<Longrightarrow> \<exists>g'. dfs_loop vs lv g = Inr (lv, g') \<and> adj g' = adj g \<and> dfs_inv lv g'
            \<and> visited g \<subseteq> visited g' \<and> set vs \<subseteq> set (topo_sort_res g')"
proof (induction node lv g and vs lv g arbitrary: and cur rule: dfs_visit_dfs_loop.induct)
  case (1 node lv g)
  let ?g1 = "g\<lparr>visited := insert node (visited g)\<rparr>"
  let ?lv1 = "insert node lv"
  from "1.prems"(4) obtain vs where vs: "map_of (adj g) node = Some vs" by auto
  have nl: "node \<notin> lv" using "1.prems"(3,5) by (auto simp: dfs_inv_def)
  have c1: "closed ?g1" using "1.prems"(1) by (simp add: closed_def)
  have e1: "edges ?g1 = edges g" by (simp add: edges_def)
  have i1: "dfs_inv ?lv1 ?g1" by (rule dfs_inv_enter[OF "1.prems"(5,3,4)])
  have r1: "\<forall>l\<in>?lv1. (l, node) \<in> (edges ?g1)\<^sup>*"
    using "1.prems"(6) unfolding e1 by (auto intro: trancl_into_rtrancl)
  have s1: "\<forall>v\<in>set vs. (node, v) \<in> edges ?g1"
    unfolding e1 using vs by (auto simp: edges_def)
  have a1: "acyclic (edges ?g1)" unfolding e1 by (rule "1.prems"(2))
  have cl: "node \<in> ?lv1" by simp
  from "1.IH"[OF vs c1 a1 i1 cl r1 s1]
  obtain g2 where l: "dfs_loop vs ?lv1 ?g1 = Inr (?lv1, g2)" and adj2: "adj g2 = adj g"
    and i2: "dfs_inv ?lv1 g2" and v2: "visited ?g1 \<subseteq> visited g2"
    and d2: "set vs \<subseteq> set (topo_sort_res g2)"
    by auto
  let ?g' = "g2\<lparr>topo_sort_res := node # topo_sort_res g2\<rparr>"
  have res: "dfs_visit node lv g = Inr (lv, ?g')"
    using vs l nl by (simp add: dfs_visit.simps)
  have vs2: "map_of (adj g2) node = Some vs" using vs adj2 by simp
  have i': "dfs_inv lv ?g'" by (rule dfs_inv_leave[OF i2 nl vs2 d2])
  from res adj2 i' v2 show ?case by auto
next
  case (2 lv g)
  then show ?case by simp
next
  case (3 v vs lv g)
  have cv: "(cur, v) \<in> edges g" using "3.prems"(6) by simp
  have rest: "\<forall>v\<in>set vs. (cur, v) \<in> edges g" using "3.prems"(6) by simp
  show ?case
  proof (cases "v \<notin> visited g")
    case True
    have key: "map_of (adj g) v \<noteq> None" by (rule edge_target_key[OF "3.prems"(1) cv])
    have reach: "\<forall>l\<in>lv. (l, v) \<in> (edges g)\<^sup>+"
      using "3.prems"(5) cv by (auto intro: rtrancl_into_trancl1)
    from "3.IH"(1)[OF True "3.prems"(1,2) True key "3.prems"(3) reach]
    obtain g1 where r1: "dfs_visit v lv g = Inr (lv, g1)" and adj1: "adj g1 = adj g"
      and i1: "dfs_inv lv g1" and v1: "visited g \<subseteq> visited g1"
      and d1: "v \<in> set (topo_sort_res g1)" by auto
    have e1: "edges g1 = edges g" by (rule edges_adj[OF adj1])
    have c1: "closed g1" using "3.prems"(1) closed_adj[OF adj1] by simp
    have a1: "acyclic (edges g1)" unfolding e1 by (rule "3.prems"(2))
    have reach1: "\<forall>l\<in>lv. (l, cur) \<in> (edges g1)\<^sup>*" unfolding e1 by (rule "3.prems"(5))
    have rest1: "\<forall>v\<in>set vs. (cur, v) \<in> edges g1" unfolding e1 by (rule rest)
    from "3.IH"(2)[OF True r1 refl c1 a1 i1 "3.prems"(4) reach1 rest1]
    obtain g' where r': "dfs_loop vs lv g1 = Inr (lv, g')" and adj': "adj g' = adj g1"
      and i': "dfs_inv lv g'" and v': "visited g1 \<subseteq> visited g'"
      and d': "set vs \<subseteq> set (topo_sort_res g')" by auto
    have "set (topo_sort_res g1) \<subseteq> set (topo_sort_res g')"
      by (rule dfs_inv_res_mono[OF i1 i' v'])
    with d1 d' have dd: "set (v # vs) \<subseteq> set (topo_sort_res g')" by auto
    have "dfs_loop (v # vs) lv g = Inr (lv, g')" using True r1 r' by simp
    with adj' adj1 i' v1 v' dd show ?thesis by auto
  next
    case False
    have nl: "v \<notin> lv"
    proof
      assume "v \<in> lv"
      with "3.prems"(5) have "(v, cur) \<in> (edges g)\<^sup>*" by simp
      from this cv have "(v, v) \<in> (edges g)\<^sup>+" by (rule rtrancl_into_trancl1)
      with "3.prems"(2) show False by (simp add: acyclic_def)
    qed
    with False "3.prems"(3) have dv: "v \<in> set (topo_sort_res g)" by (auto simp: dfs_inv_def)
    from "3.IH"(3)[OF _ nl "3.prems"(1,2,3,4,5) rest] False
    obtain g' where r': "dfs_loop vs lv g = Inr (lv, g')" and adj': "adj g' = adj g"
      and i': "dfs_inv lv g'" and v': "visited g \<subseteq> visited g'"
      and d': "set vs \<subseteq> set (topo_sort_res g')" by auto
    have "set (topo_sort_res g) \<subseteq> set (topo_sort_res g')"
      by (rule dfs_inv_res_mono[OF "3.prems"(3) i' v'])
    with dv d' have dd: "set (v # vs) \<subseteq> set (topo_sort_res g')" by auto
    have "dfs_loop (v # vs) lv g = Inr (lv, g')" using False nl r' by simp
    with adj' i' v' dd show ?thesis by auto
  qed
qed

lemma topo_loop_correct:
  "closed g \<Longrightarrow> acyclic (edges g) \<Longrightarrow> dfs_inv {} g \<Longrightarrow> set ns \<subseteq> set (map fst (adj g))
     \<Longrightarrow> \<exists>g'. topo_loop ns g = Inr g' \<and> adj g' = adj g \<and> dfs_inv {} g'
            \<and> visited g \<subseteq> visited g' \<and> set ns \<subseteq> visited g'"
proof (induction ns arbitrary: g)
  case Nil
  then show ?case by simp
next
  case (Cons n ns)
  show ?case
  proof (cases "n \<notin> visited g")
    case True
    from Cons.prems(4) have key: "map_of (adj g) n \<noteq> None" by (simp add: map_of_eq_None_iff)
    have "\<forall>l\<in>{}. (l, n) \<in> (edges g)\<^sup>+" by simp
    from dfs_correct(1)[OF Cons.prems(1,2) True key Cons.prems(3) this]
    obtain g1 where r1: "dfs_visit n {} g = Inr ({}, g1)" and adj1: "adj g1 = adj g"
      and i1: "dfs_inv {} g1" and v1: "visited g \<subseteq> visited g1"
      and d1: "n \<in> set (topo_sort_res g1)" by auto
    have c1: "closed g1" using Cons.prems(1) closed_adj[OF adj1] by simp
    have a1: "acyclic (edges g1)" using Cons.prems(2) edges_adj[OF adj1] by simp
    have k1: "set ns \<subseteq> set (map fst (adj g1))" using Cons.prems(4) adj1 by simp
    from Cons.IH[OF c1 a1 i1 k1]
    obtain g' where r': "topo_loop ns g1 = Inr g'" and adj': "adj g' = adj g1"
      and i': "dfs_inv {} g'" and v': "visited g1 \<subseteq> visited g'" and d': "set ns \<subseteq> visited g'"
      by auto
    from i1 d1 have "n \<in> visited g1" by (simp add: dfs_inv_def)
    with v' d' have dd: "set (n # ns) \<subseteq> visited g'" by auto
    have "topo_loop (n # ns) g = Inr g'" using True r1 r' by simp
    with adj' adj1 i' v1 v' dd show ?thesis by auto
  next
    case False
    from Cons.prems(4) have k: "set ns \<subseteq> set (map fst (adj g))" by simp
    from Cons.IH[OF Cons.prems(1,2,3) k]
    obtain g' where r': "topo_loop ns g = Inr g'" and adj': "adj g' = adj g"
      and i': "dfs_inv {} g'" and v': "visited g \<subseteq> visited g'" and d': "set ns \<subseteq> visited g'"
      by auto
    from False v' d' have dd: "set (n # ns) \<subseteq> visited g'" by auto
    have "topo_loop (n # ns) g = Inr g'" using False r' by simp
    with adj' i' v' dd show ?thesis by auto
  qed
qed

lemma closed_add_node: "closed g \<Longrightarrow> closed (add_node n g)"
  by (auto simp: closed_def add_node_def)

lemma add_node_key: "n \<in> set (map fst (adj (add_node n g)))"
  by (auto simp: add_node_def)

lemma add_node_keys_mono: "set (map fst (adj g)) \<subseteq> set (map fst (adj (add_node n g)))"
  by (auto simp: add_node_def)

lemma closed_add_edge:
  assumes "closed g"
  shows "closed (add_edge src dst g)"
proof -
  let ?g' = "add_node dst (add_node src g)"
  have c: "closed ?g'" by (intro closed_add_node assms)
  have d: "dst \<in> set (map fst (adj ?g'))" by (rule add_node_key)
  have k: "map fst (map (append_dst src dst) (adj ?g')) = map fst (adj ?g')"
    by (simp add: append_dst_def comp_def)
  have "set (snd (append_dst src dst kv)) \<subseteq> set (map fst (adj ?g'))" if "kv \<in> set (adj ?g')" for kv
    using that c d by (auto simp: closed_def append_dst_def)
  then have "\<forall>kv\<in>set (map (append_dst src dst) (adj ?g')).
      set (snd kv) \<subseteq> set (map fst (map (append_dst src dst) (adj ?g')))"
    unfolding k by auto
  then show ?thesis by (simp add: closed_def add_edge_def Let_def)
qed

lemma closed_fold: "closed g \<Longrightarrow> closed (fold run_call calls g)"
proof (induction calls arbitrary: g)
  case Nil
  then show ?case by simp
next
  case (Cons c calls)
  have "closed (run_call c g)"
    using Cons.prems by (cases c) (simp_all add: closed_add_node closed_add_edge)
  then show ?case using Cons.IH by simp
qed

lemma closed_build: "closed (build calls)"
  unfolding build_def by (rule closed_fold) (simp add: closed_def VarDAG_init_def)

lemma topological_ordering_closed:
  assumes c: "closed g" and a: "acyclic (edges g)"
  shows "\<exists>order. get_topological_ordering g = Inr order \<and> distinct order
     \<and> set order = set (map fst (adj g))
     \<and> (\<forall>(s, d)\<in>edges g. appears_before order s d)"
proof -
  let ?g0 = "g\<lparr>topo_sort_res := [], visited := {}\<rparr>"
  have c0: "closed ?g0" using c by (simp add: closed_def)
  have e0: "edges ?g0 = edges g" by (simp add: edges_def)
  have a0: "acyclic (edges ?g0)" unfolding e0 by (rule a)
  have i0: "dfs_inv {} ?g0" by (simp add: dfs_inv_def)
  have k0: "set (map fst (adj g)) \<subseteq> set (map fst (adj ?g0))" by simp
  from topo_loop_correct[OF c0 a0 i0 k0]
  obtain g' where r: "topo_loop (map fst (adj g)) ?g0 = Inr g'" and adj': "adj g' = adj ?g0"
    and i': "dfs_inv {} g'" and d': "set (map fst (adj g)) \<subseteq> visited g'" by auto
  have res: "get_topological_ordering g = Inr (topo_sort_res g')"
    using r by (simp add: get_topological_ordering_def)
  from i' have vis: "visited g' = set (topo_sort_res g')" and dist: "distinct (topo_sort_res g')"
    and sub: "visited g' \<subseteq> set (map fst (adj g'))" by (auto simp: dfs_inv_def)
  from sub d' adj' vis have keys: "set (topo_sort_res g') = set (map fst (adj g))" by auto
  have e': "edges g' = edges g" using adj' by (simp add: edges_def)
  have "appears_before (topo_sort_res g') s d" if sd: "(s, d) \<in> edges g" for s d
  proof -
    from sd have "map_of (adj g) s \<noteq> None" by (auto simp: edges_def)
    then have "s \<in> set (map fst (adj g))" by (simp add: map_of_eq_None_iff)
    with keys have "s \<in> set (topo_sort_res g')" by simp
    with i' sd e' show ?thesis by (simp add: dfs_inv_def)
  qed
  with res dist keys show ?thesis by auto
qed

lemma acyclic_single: "a \<noteq> b \<Longrightarrow> acyclic {(a, b)}"
  unfolding acyclic_insert by (simp add: acyclic_def)

text \<open>
  Claim C6, as stated, fails: for the graph with the single edge \<open>s \<rightarrow> d\<close> the order
  returned is \<open>[s, d]\<close>; \<open>d\<close> does not come before \<open>s\<close>.
\<close>

theorem topological_ordering_counterexample:
  "get_topological_ordering (build [AddEdge ''s'' ''d'']) = Inr [''s'', ''d'']
   \<and> (''s'', ''d'') \<in> edges (build [AddEdge ''s'' ''d''])
   \<and> acyclic (edges (build [AddEdge ''s'' ''d'']))
   \<and> \<not> appears_before [''s'', ''d''] ''d'' ''s''"
proof -
  have e: "edges (build [AddEdge ''s'' ''d'']) = {(''s'', ''d'')}"
    by (auto simp: edges_def build_def VarDAG_init_def add_edge_def add_node_def append_dst_def
          split: if_splits)
  have "get_topological_ordering (build [AddEdge ''s'' ''d'']) = Inr [''s'', ''d'']"
    by (simp add: get_topological_ordering_def build_def VarDAG_init_def add_edge_def
          add_node_def append_dst_def dfs_visit.simps)
  moreover have "acyclic {(''s'', ''d'')}" by (rule acyclic_single) simp
  moreover have "\<not> appears_before [''s'', ''d''] ''d'' ''s''" by (simp add: appears_before_def)
  ultimately show ?thesis using e by simp
qed

text \<open>
  Claim C6, amended. For every acyclic graph built by \<open>add_node\<close> and \<open>add_edge\<close> calls,
  \<open>get_topological_ordering\<close> returns (it raises nothing) a list that holds every node
  exactly once and in which, for every edge \<open>s \<rightarrow> d\<close>, the node \<open>s\<close> comes before the
  node \<open>d\<close>: a node comes before the nodes it points to.
\<close>

theorem topological_ordering_sources_first:
  assumes "acyclic (edges (build calls))"
  shows "\<exists>order. get_topological_ordering (build calls) = Inr order \<and> distinct order
     \<and> set order = set (map fst (adj (build calls)))
     \<and> (\<forall>(s, d)\<in>edges (build calls). appears_before order s d)"
  using closed_build assms by (rule topological_ordering_closed)

theorem topological_ordering_sources_first_witness:
  "acyclic (edges (build [AddEdge ''v'' ''n'']))
   \<and> (\<exists>order. get_topological_ordering (build [AddEdge ''v'' ''n'']) = Inr order
         \<and> appears_before order ''v'' ''n'')"
proof -
  have e: "edges (build [AddEdge ''v'' ''n'']) = {(''v'', ''n'')}"
    by (auto simp: edges_def build_def VarDAG_init_def add_edge_def add_node_def append_dst_def
          split: if_splits)
  have a: "acyclic (edges (build [AddEdge ''v'' ''n'']))"
    unfolding e by (rule acyclic_single) simp
  from topological_ordering_sources_first[OF a] e a show ?thesis by auto
qed

section \<open>Properties of the goal generalizer\<close>

text \<open>
  Claim C7. The goal \<open>P n v\<close> has the local context \<open>n : nat\<close>, \<open>v : vec n\<close>: the type of
  \<open>v\<close> mentions \<open>n\<close>. \<open>generalize\<close> puts the quantifier of \<open>v\<close> outermost, around the
  quantifier of \<open>n\<close>, so the \<open>n\<close> in the type of \<open>v\<close> is outside the scope of its
  quantifier.
\<close>

theorem generalize_puts_dependency_innermost:
  "generalize
     [\<lparr>hyp_names = [''n''], hyp_body = ''nat'', hyp_fvs = [''nat'']\<rparr>,
      \<lparr>hyp_names = [''v''], hyp_body = ''vec n'', hyp_fvs = [''vec'', ''n'']\<rparr>]
     ''P n v'' [''P'', ''n'', ''v'']
   = Inr ''forall (v : vec n), (forall (n : nat), (P n v))''"
  by (simp add: generalize_def make_dag_def get_topological_ordering_def VarDAG_init_def
        add_edge_def add_node_def append_dst_def wrap_forall_def dfs_visit.simps)

end
